theory Spec2Isabelle
  imports Main "HOL-Library.Sublist" "HOL-Library.Multiset"
begin

section \<open>String primitives of the host language\<close>

text \<open>
  Strings are lists of code units. The model covers code units below 256 (Latin-1):
  \<open>isWhitespace\<close> is the set that \<open>String.prototype.trim\<close> and the regular-expression
  class \<open>\s\<close> accept in that range, \<open>isLineTerminator\<close> the set that \<open>.\<close> refuses and at
  which \<open>^\<close> and \<open>$\<close> anchor under the \<open>m\<close> flag, and \<open>toLowerCase\<close> the simple
  case mapping of that range.
\<close>

definition isWhitespace :: "char \<Rightarrow> bool" where
  "isWhitespace c = (of_char c \<in> {9, 10, 11, 12, 13, 32, 160 :: nat})"


definition toLowerChar :: "char \<Rightarrow> char" where
  "toLowerChar c = (let n = (of_char c :: nat) in
     if (65 \<le> n \<and> n \<le> 90) \<or> (192 \<le> n \<and> n \<le> 222 \<and> n \<noteq> 215)
     then char_of (n + 32) else c)"

definition toLowerCase :: "string \<Rightarrow> string" where
  "toLowerCase s = map toLowerChar s"

definition trim :: "string \<Rightarrow> string" where
  "trim s = rev (dropWhile isWhitespace (rev (dropWhile isWhitespace s)))"

text \<open>\<open>s.includes(q)\<close>: some suffix of \<open>s\<close> starts with \<open>q\<close>.\<close>

fun includes_str :: "string \<Rightarrow> string \<Rightarrow> bool" where
  "includes_str [] q = (q = [])"
| "includes_str (c # cs) q = (prefix q (c # cs) \<or> includes_str cs q)"

text \<open>\<open>xs.join(sep)\<close>.\<close>

fun join :: "string list \<Rightarrow> string \<Rightarrow> string" where
  "join [] sep = []"
| "join [x] sep = x"
| "join (x # y # ys) sep = x @ sep @ join (y # ys) sep"

text \<open>
  \<open>Array.prototype.sort(cmp)\<close> is stable and, for a consistent comparator, yields the
  sorted permutation; the stable insertion sort computes exactly that list.
\<close>

fun insert_js :: "('a \<Rightarrow> 'a \<Rightarrow> int) \<Rightarrow> 'a \<Rightarrow> 'a list \<Rightarrow> 'a list" where
  "insert_js cmp x [] = [x]"
| "insert_js cmp x (y # ys) = (if cmp x y \<le> 0 then x # y # ys else y # insert_js cmp x ys)"

fun sort_js :: "('a \<Rightarrow> 'a \<Rightarrow> int) \<Rightarrow> 'a list \<Rightarrow> 'a list" where
  "sort_js cmp [] = []"
| "sort_js cmp (x # xs) = insert_js cmp x (sort_js cmp xs)"

text \<open>\<open>xs.findIndex(p)\<close>: the first index whose element satisfies \<open>p\<close>, or \<open>-1\<close>.\<close>

fun findIndexFrom :: "int \<Rightarrow> ('a \<Rightarrow> bool) \<Rightarrow> 'a list \<Rightarrow> int" where
  "findIndexFrom i p [] = -1"
| "findIndexFrom i p (x # xs) = (if p x then i else findIndexFrom (i + 1) p xs)"

definition findIndex :: "('a \<Rightarrow> bool) \<Rightarrow> 'a list \<Rightarrow> int" where
  "findIndex p xs = findIndexFrom 0 p xs"


section \<open>The taxonomy\<close>

record Category =
  id_cat :: string
  title :: string
  slug :: string
  description :: string
  parentId :: "string option"
  order :: int
  tags :: "string list"
  icon :: "string option"

text \<open>\<open>categories.forEach((cat) => categoryMap.set(cat.id, cat))\<close>: the last write wins.\<close>

definition categoryMap :: "Category list \<Rightarrow> (string \<rightharpoonup> Category)" where
  "categoryMap categories = fold (\<lambda>cat m. m(id_cat cat \<mapsto> cat)) categories Map.empty"

text \<open>
  The index loop of \<open>getNavigationTree\<close> and \<open>findTopicBySlugPath\<close>: each category is
  pushed onto the array stored under its \<open>parentId\<close>; the keys \<open>null\<close> and \<open>""\<close> are
  different keys of the \<open>Map\<close>.
\<close>

definition childrenMap :: "Category list \<Rightarrow> (string option \<rightharpoonup> Category list)" where
  "childrenMap categories =
     fold (\<lambda>cat m. m(parentId cat \<mapsto> (case m (parentId cat) of None \<Rightarrow> [] | Some cs \<Rightarrow> cs) @ [cat]))
       categories Map.empty"

text \<open>\<open>childrenMap.get(parentId) || []\<close>.\<close>

definition childrenOf :: "Category list \<Rightarrow> string option \<Rightarrow> Category list" where
  "childrenOf categories pid = (case childrenMap categories pid of None \<Rightarrow> [] | Some cs \<Rightarrow> cs)"


subsection \<open>Walking the parent chain\<close>

text \<open>
  One step of the parent walk: \<open>current.parentId ? categoryMap.get(current.parentId) :
  undefined\<close>. The test is a truthiness test, so \<open>null\<close> and the empty string both end
  the walk; so does an id that the map does not hold.
\<close>

definition parentOf :: "(string \<rightharpoonup> Category) \<Rightarrow> Category \<Rightarrow> Category option" where
  "parentOf m current =
     (case parentId current of
        None \<Rightarrow> None
      | Some p \<Rightarrow> if p \<noteq> [] then m p else None)"

text \<open>
  The loop \<open>while (current) { segments.unshift(current.slug); current = ... }\<close>, shared by
  \<open>buildHref\<close> and \<open>getAllTopicSlugs\<close>. It has no cycle guard: a walk that does not
  return is the value \<open>None\<close>.
\<close>

partial_function (option) walkSlugs ::
  "(string \<rightharpoonup> Category) \<Rightarrow> Category option \<Rightarrow> string list \<Rightarrow> string list option" where
  "walkSlugs m current pathSegments =
     (case current of
        None \<Rightarrow> Some pathSegments
      | Some c \<Rightarrow> walkSlugs m (parentOf m c) (slug c # pathSegments))"

definition buildHref :: "Category \<Rightarrow> (string \<rightharpoonup> Category) \<Rightarrow> string option" where
  "buildHref category m =
     map_option (\<lambda>pathSegments. ''/topics/'' @ join pathSegments ''/'')
       (walkSlugs m (Some category) [])"

text \<open>\<open>getAllTopicSlugs\<close>: one walk per category, in the order of the category array.\<close>

fun slugPaths :: "(string \<rightharpoonup> Category) \<Rightarrow> Category list \<Rightarrow> string list list option" where
  "slugPaths m [] = Some []"
| "slugPaths m (category # rest) =
     (case walkSlugs m (Some category) [] of
        None \<Rightarrow> None
      | Some slugPath \<Rightarrow> map_option ((#) slugPath) (slugPaths m rest))"

definition getAllTopicSlugs :: "Category list \<Rightarrow> string list list option" where
  "getAllTopicSlugs categories = slugPaths (categoryMap categories) categories"


subsection \<open>The navigation tree\<close>

datatype NavItem = NavItem (nav_title: string) (nav_href: string) (nav_children: "NavItem list")

definition byOrder :: "Category \<Rightarrow> Category \<Rightarrow> int" where
  "byOrder a b = order a - order b"

text \<open>
  \<open>buildTree(parentId, basePath)\<close> sorts the children of \<open>parentId\<close> and maps each to a
  \<open>NavItem\<close>; \<open>buildItems\<close> is that \<open>map\<close> over the sorted children, recursing into
  \<open>buildTree(cat.id, basePath + "/" + cat.slug)\<close> for each. The recursion follows the
  data and has no depth bound: not returning is \<open>None\<close>.
\<close>

partial_function (option) buildItems ::
  "Category list \<Rightarrow> string \<Rightarrow> Category list \<Rightarrow> NavItem list option" where
  "buildItems categories basePath children =
     (case children of
        [] \<Rightarrow> Some []
      | cat # rest \<Rightarrow>
          Option.bind
            (buildItems categories (basePath @ ''/'' @ slug cat)
               (sort_js byOrder (childrenOf categories (Some (id_cat cat)))))
            (\<lambda>kids. Option.bind (buildItems categories basePath rest)
               (\<lambda>items. Some (NavItem (title cat) (basePath @ ''/'' @ slug cat) kids # items))))"

definition buildTree :: "Category list \<Rightarrow> string option \<Rightarrow> string \<Rightarrow> NavItem list option" where
  "buildTree categories pid basePath =
     buildItems categories basePath (sort_js byOrder (childrenOf categories pid))"

definition getNavigationTree :: "Category list \<Rightarrow> NavItem list option" where
  "getNavigationTree categories = buildTree categories None ''/topics''"


subsection \<open>Resolving a slug path\<close>

text \<open>
  The \<open>for\<close> loop of \<open>findTopicBySlugPath\<close>: the outer \<open>None\<close> is the early
  \<open>return null\<close>, \<open>Some parentId\<close> the value of the loop variable once the path is
  consumed.
\<close>

fun resolveSlugs :: "Category list \<Rightarrow> string option \<Rightarrow> string list \<Rightarrow> string option option" where
  "resolveSlugs categories pid [] = Some pid"
| "resolveSlugs categories pid (s # rest) =
     (case find (\<lambda>c. slug c = s) (childrenOf categories pid) of
        None \<Rightarrow> None
      | Some found \<Rightarrow> resolveSlugs categories (Some (id_cat found)) rest)"

text \<open>
  After the loop: \<open>if (parentId) return categoryMap.get(parentId) || null; return null\<close>,
  again a truthiness test on the id.
\<close>

definition findTopicBySlugPath :: "Category list \<Rightarrow> string list \<Rightarrow> Category option" where
  "findTopicBySlugPath categories slugPath =
     (case resolveSlugs categories None slugPath of
        None \<Rightarrow> None
      | Some None \<Rightarrow> None
      | Some (Some p) \<Rightarrow> if p \<noteq> [] then categoryMap categories p else None)"

definition getTopicMetadata :: "Category list \<Rightarrow> string list \<Rightarrow> Category option" where
  "getTopicMetadata categories slugPath = findTopicBySlugPath categories slugPath"


subsection \<open>Previous and next topic\<close>

record TopicInfo =
  info_title :: string
  info_href :: string

record PrevNext =
  prev_topic :: "TopicInfo option"
  next_topic :: "TopicInfo option"

definition getTopicInfo :: "Category list \<Rightarrow> string list option \<Rightarrow> TopicInfo option" where
  "getTopicInfo categories sl =
     (case sl of
        None \<Rightarrow> None
      | Some s \<Rightarrow>
          (case getTopicMetadata categories s of
             None \<Rightarrow> None
           | Some meta \<Rightarrow> Some \<lparr>info_title = title meta, info_href = ''/topics/'' @ join s ''/''\<rparr>))"

definition prevNextIn :: "Category list \<Rightarrow> string list list \<Rightarrow> string list \<Rightarrow> PrevNext" where
  "prevNextIn categories allSlugs slugPath =
     (let currentSlugStr = join slugPath ''/'';
          currentIndex = findIndex (\<lambda>s. join s ''/'' = currentSlugStr) allSlugs
      in if currentIndex = -1 then \<lparr>prev_topic = None, next_topic = None\<rparr>
         else
           let prevSlug = (if currentIndex > 0 then Some (allSlugs ! nat (currentIndex - 1)) else None);
               nextSlug = (if currentIndex < int (length allSlugs) - 1
                           then Some (allSlugs ! nat (currentIndex + 1)) else None)
           in \<lparr>prev_topic = getTopicInfo categories prevSlug,
                next_topic = getTopicInfo categories nextSlug\<rparr>)"

definition getPrevNextTopics :: "Category list \<Rightarrow> string list \<Rightarrow> PrevNext option" where
  "getPrevNextTopics categories slugPath =
     map_option (\<lambda>allSlugs. prevNextIn categories allSlugs slugPath) (getAllTopicSlugs categories)"


section \<open>Search\<close>

datatype MatchType = Title | Description | Tags

record SearchItem =
  category :: Category
  href :: string
  parentTitle :: "string option"

record SearchResult =
  item :: SearchItem
  matchType :: MatchType

text \<open>The body of \<open>allItems.forEach\<close>: the first field that contains the query decides.\<close>

definition matchTypeOf :: "string \<Rightarrow> SearchItem \<Rightarrow> MatchType option" where
  "matchTypeOf queryLower it =
     (if includes_str (toLowerCase (title (category it))) queryLower then Some Title
      else if includes_str (toLowerCase (description (category it))) queryLower then Some Description
      else if list_ex (\<lambda>tag. includes_str (toLowerCase tag) queryLower) (tags (category it))
      then Some Tags
      else None)"

fun collectMatches :: "string \<Rightarrow> SearchItem list \<Rightarrow> SearchResult list" where
  "collectMatches queryLower [] = []"
| "collectMatches queryLower (it # rest) =
     (case matchTypeOf queryLower it of
        None \<Rightarrow> collectMatches queryLower rest
      | Some mt \<Rightarrow> \<lparr>item = it, matchType = mt\<rparr> # collectMatches queryLower rest)"

definition compareMatches :: "SearchResult \<Rightarrow> SearchResult \<Rightarrow> int" where
  "compareMatches a b =
     (if matchType a = Title \<and> matchType b \<noteq> Title then -1
      else if matchType a \<noteq> Title \<and> matchType b = Title then 1
      else order (category (item a)) - order (category (item b)))"

definition sortedMatches :: "string \<Rightarrow> SearchItem list \<Rightarrow> SearchResult list" where
  "sortedMatches searchQuery allItems =
     sort_js compareMatches (collectMatches (toLowerCase searchQuery) allItems)"

text \<open>
  The two \<open>search\<close> callbacks are the same code up to the slice: the header bar keeps 8
  results, the search page 20. The value is what is passed to \<open>setResults\<close>.
\<close>

definition search :: "nat \<Rightarrow> string \<Rightarrow> SearchItem list \<Rightarrow> SearchResult list" where
  "search limit searchQuery allItems =
     (if trim searchQuery = [] then []
      else take limit (sortedMatches searchQuery allItems))"

definition searchBar_search :: "string \<Rightarrow> SearchItem list \<Rightarrow> SearchResult list" where
  "searchBar_search = search 8"

definition searchPage_search :: "string \<Rightarrow> SearchItem list \<Rightarrow> SearchResult list" where
  "searchPage_search = search 20"

text \<open>\<open>searchTopics\<close> of the content library: a filter in array order, sliced to 20.\<close>

definition searchTopics :: "string \<Rightarrow> Category list \<Rightarrow> Category list" where
  "searchTopics query allTopics =
     (if trim query = [] then []
      else take 20 (filter (\<lambda>topic.
             includes_str (toLowerCase (title topic)) (toLowerCase query) \<or>
             includes_str (toLowerCase (description topic)) (toLowerCase query) \<or>
             list_ex (\<lambda>tag. includes_str (toLowerCase tag) (toLowerCase query)) (tags topic))
           allTopics))"

subsection \<open>The root ancestor of a search result\<close>

text \<open>
  The grouping loop of the search page: \<open>let rootId = result.id; let current =
  categoryMap.get(result.id); while (current?.parentId) { rootId = current.parentId;
  current = categoryMap.get(current.parentId); }\<close>.
\<close>

partial_function (option) rootWalk ::
  "(string \<rightharpoonup> Category) \<Rightarrow> string \<Rightarrow> Category option \<Rightarrow> string option" where
  "rootWalk m rootId current =
     (case current of
        None \<Rightarrow> Some rootId
      | Some c \<Rightarrow>
          (case parentId c of
             None \<Rightarrow> Some rootId
           | Some p \<Rightarrow> if p = [] then Some rootId else rootWalk m p (m p)))"

definition rootIdOf :: "(string \<rightharpoonup> Category) \<Rightarrow> string \<Rightarrow> string option" where
  "rootIdOf m resultId = rootWalk m resultId (m resultId)"

text \<open>
  The same loop with a counter of the rounds of its body, to state how often the body
  runs; the root id it returns is that of \<open>rootWalk\<close>.
\<close>

partial_function (option) rootWalkRounds ::
  "(string \<rightharpoonup> Category) \<Rightarrow> string \<Rightarrow> Category option \<Rightarrow> nat \<Rightarrow> (string \<times> nat) option" where
  "rootWalkRounds m rootId current rounds =
     (case current of
        None \<Rightarrow> Some (rootId, rounds)
      | Some c \<Rightarrow>
          (case parentId c of
             None \<Rightarrow> Some (rootId, rounds)
           | Some p \<Rightarrow> if p = [] then Some (rootId, rounds)
                      else rootWalkRounds m p (m p) (Suc rounds)))"

definition rootRounds :: "(string \<rightharpoonup> Category) \<Rightarrow> string \<Rightarrow> (string \<times> nat) option" where
  "rootRounds m resultId = rootWalkRounds m resultId (m resultId) 0"


section \<open>The table of contents\<close>














section \<open>The search, in the words of the specification\<close>





section \<open>The parent graph\<close>

text \<open>
  The parent graph of the data model: an edge from a category of the list to every
  category of the list whose id its \<open>parentId\<close> names. The ancestors of a category are
  the categories reachable from it along one edge or more. A chain is resolved when
  every \<open>parentId\<close> on it, of the category and of its ancestors, is the id of a
  category of the list.
\<close>

definition parentGraph :: "Category list \<Rightarrow> (Category \<times> Category) set" where
  "parentGraph cats = {(c, p). c \<in> set cats \<and> p \<in> set cats \<and> parentId c = Some (id_cat p)}"

definition ancestors :: "Category list \<Rightarrow> Category \<Rightarrow> Category set" where
  "ancestors cats c = {p. (c, p) \<in> (parentGraph cats)\<^sup>+}"

definition chainResolved :: "Category list \<Rightarrow> Category \<Rightarrow> bool" where
  "chainResolved cats c \<longleftrightarrow>
     (\<forall>a\<in>insert c (ancestors cats c). \<forall>p. parentId a = Some p \<longrightarrow> p \<in> id_cat ` set cats)"

text \<open>
  The steps of the walk: an edge from a category of the list to the category that one
  step of the walk, \<open>parentOf\<close> on the id map of the list, reaches; and the categories
  that the walk from a category visits after it.
\<close>

definition parentRel :: "Category list \<Rightarrow> (Category \<times> Category) set" where
  "parentRel cats = {(c, p). c \<in> set cats \<and> parentOf (categoryMap cats) c = Some p}"

definition reached :: "Category list \<Rightarrow> Category \<Rightarrow> Category set" where
  "reached cats c = {p. (c, p) \<in> (parentRel cats)\<^sup>+}"


section \<open>Nodes of the navigation tree\<close>

text \<open>
  The top-down href, in the words of the specification: a root category (\<open>parentId\<close>
  null) gets the base path \<open>/topics\<close> followed by \<open>/\<close> and its slug; a category stored
  under a category that is in the tree gets that category's href as running base path,
  followed by \<open>/\<close> and its own slug. \<open>inTree cats c h\<close>: category \<open>c\<close> is reachable in
  the tree and \<open>h\<close> is its top-down href.
\<close>

inductive inTree :: "Category list \<Rightarrow> Category \<Rightarrow> string \<Rightarrow> bool" for cats where
  top: "c \<in> set cats \<Longrightarrow> parentId c = None \<Longrightarrow> inTree cats c (''/topics'' @ ''/'' @ slug c)"
| sub: "inTree cats p base \<Longrightarrow> c \<in> set cats \<Longrightarrow> parentId c = Some (id_cat p)
          \<Longrightarrow> inTree cats c (base @ ''/'' @ slug c)"

fun allNodes :: "NavItem \<Rightarrow> NavItem list" where
  "allNodes (NavItem t h kids) = NavItem t h kids # concat (map allNodes kids)"

definition treeNodes :: "NavItem list \<Rightarrow> NavItem list" where
  "treeNodes items = concat (map allNodes items)"

text \<open>
  The uniqueness of slugs among the categories stored under one parent.
\<close>

definition siblingSlugsUnique :: "Category list \<Rightarrow> bool" where
  "siblingSlugsUnique cats \<longleftrightarrow> (\<forall>pid. distinct (map slug (childrenOf cats pid)))"

text \<open>
  The chain of categories that the recursion of \<open>buildTree\<close> has entered: the category
  being expanded first, then its parent, up to a root.
\<close>

fun chainUp :: "Category list \<Rightarrow> Category list \<Rightarrow> bool" where
  "chainUp cats [] = True"
| "chainUp cats [c] = (c \<in> set cats \<and> parentId c = None)"
| "chainUp cats (c # p # rest) =
     (c \<in> set cats \<and> parentId c = Some (id_cat p) \<and> chainUp cats (p # rest))"


section \<open>The table of contents, line by line\<close>









section \<open>Example data\<close>

definition blankProbe :: SearchItem where
  "blankProbe = \<lparr>category = \<lparr>id_cat = ''asr'', title = ''Speech   Recognition'', slug = ''asr'',
       description = ''How speech is transcribed'', parentId = None, order = 1,
       tags = [''stt''], icon = None\<rparr>, href = ''/topics/asr'', parentTitle = None\<rparr>"

definition emptyIdRoot :: Category where
  "emptyIdRoot = \<lparr>id_cat = '''', title = ''Basics'', slug = ''basics'', description = ''Start here'',
     parentId = None, order = 1, tags = [], icon = None\<rparr>"

definition rootFoundations :: Category where
  "rootFoundations = \<lparr>id_cat = ''foundations'', title = ''Foundations'', slug = ''foundations'',
     description = ''Core ideas'', parentId = None, order = 1, tags = [''basics''], icon = None\<rparr>"

definition childSpeech :: Category where
  "childSpeech = \<lparr>id_cat = ''speech-recognition'', title = ''Speech Recognition'',
     slug = ''speech-recognition'', description = ''From audio to text'',
     parentId = Some ''foundations'', order = 2, tags = [''stt'', ''asr''], icon = None\<rparr>"

definition catA :: Category where
  "catA = \<lparr>id_cat = ''a'', title = ''Alpha'', slug = ''alpha'', description = ''First written'',
     parentId = None, order = 2, tags = [], icon = None\<rparr>"

definition catB :: Category where
  "catB = \<lparr>id_cat = ''b'', title = ''Beta'', slug = ''beta'', description = ''Second written'',
     parentId = None, order = 1, tags = [], icon = None\<rparr>"

definition catB2 :: Category where
  "catB2 = \<lparr>id_cat = ''b2'', title = ''Gamma'', slug = ''gamma'', description = ''Third written'',
     parentId = None, order = 1, tags = [], icon = None\<rparr>"





definition childOfEmptyId :: Category where
  "childOfEmptyId = \<lparr>id_cat = ''intro'', title = ''Introduction'', slug = ''intro'',
     description = ''Read first'', parentId = Some '''', order = 1, tags = [], icon = None\<rparr>"

definition orphanTopic :: Category where
  "orphanTopic = \<lparr>id_cat = ''orphan'', title = ''Lost Topic'', slug = ''lost'',
     description = ''Its parent was removed'', parentId = Some ''missing'', order = 3,
     tags = [], icon = None\<rparr>"

definition childOfOrphan :: Category where
  "childOfOrphan = \<lparr>id_cat = ''kid'', title = ''Below the Lost Topic'', slug = ''kid'',
     description = ''Still has a parent'', parentId = Some ''orphan'', order = 1,
     tags = [], icon = None\<rparr>"

definition selfParent :: Category where
  "selfParent = \<lparr>id_cat = ''loop'', title = ''Loop'', slug = ''loop'',
     description = ''Its own parent'', parentId = Some ''loop'', order = 1,
     tags = [], icon = None\<rparr>"

definition sameIdChild :: Category where
  "sameIdChild = \<lparr>id_cat = ''a'', title = ''Alpha again'', slug = ''again'',
     description = ''Takes the id of its parent'', parentId = Some ''a'', order = 1,
     tags = [], icon = None\<rparr>"



section \<open>Basic facts about the index maps and the string primitives\<close>

lemma categoryMap_snoc: "categoryMap (cats @ [c]) = (categoryMap cats)(id_cat c \<mapsto> c)"
  by (simp add: categoryMap_def)

lemma categoryMap_Nil: "categoryMap [] = Map.empty"
  by (simp add: categoryMap_def)

lemma categoryMap_SomeD: "categoryMap cats k = Some c \<Longrightarrow> c \<in> set cats \<and> id_cat c = k"
  by (induction cats rule: rev_induct)
    (auto simp: categoryMap_snoc categoryMap_Nil split: if_splits)

lemma categoryMap_None_iff: "categoryMap cats k = None \<longleftrightarrow> k \<notin> id_cat ` set cats"
  by (induction cats rule: rev_induct)
    (auto simp: categoryMap_snoc categoryMap_Nil split: if_splits)

lemma categoryMap_distinct:
  assumes "distinct (map id_cat cats)" "c \<in> set cats"
  shows "categoryMap cats (id_cat c) = Some c"
proof -
  from assms(2) have "categoryMap cats (id_cat c) \<noteq> None"
    by (simp add: categoryMap_None_iff)
  then obtain d where d: "categoryMap cats (id_cat c) = Some d" by auto
  then have "d \<in> set cats" "id_cat d = id_cat c" by (auto dest: categoryMap_SomeD)
  with assms have "d = c" by (meson distinct_map inj_onD)
  with d show ?thesis by simp
qed

lemma childrenMap_snoc:
  "childrenMap (cats @ [c]) = (childrenMap cats)(parentId c \<mapsto> childrenOf cats (parentId c) @ [c])"
  by (simp add: childrenMap_def childrenOf_def)

lemma childrenMap_filter:
  "childrenMap cats k =
     (if filter (\<lambda>c. parentId c = k) cats = [] then None
      else Some (filter (\<lambda>c. parentId c = k) cats))"
proof (induction cats arbitrary: k rule: rev_induct)
  case Nil
  show ?case by (simp add: childrenMap_def)
next
  case (snoc c cats)
  show ?case
    by (simp add: childrenMap_snoc childrenOf_def snoc.IH)
qed

lemma childrenOf_filter: "childrenOf cats k = filter (\<lambda>c. parentId c = k) cats"
  by (simp add: childrenOf_def childrenMap_filter)

lemma dropWhile_all: "(\<forall>x\<in>set (dropWhile P s). P x) \<longleftrightarrow> (\<forall>x\<in>set s. P x)"
  by (induction s) auto

lemma trim_empty_iff: "trim s = [] \<longleftrightarrow> (\<forall>c\<in>set s. isWhitespace c)"
  by (simp add: trim_def dropWhile_eq_Nil_conv dropWhile_all)

section \<open>Blank queries\<close>

text \<open>
  C9. A query that is empty or consists only of whitespace yields the empty result list,
  whatever the items are: in the header search bar, on the search page and in
  \<open>searchTopics\<close>. The test comes before any matching, so items that contain the
  blanks of the query are not returned either.
\<close>

theorem search_blank_query:
  assumes "\<forall>c\<in>set searchQuery. isWhitespace c"
  shows "searchBar_search searchQuery allItems = []
       \<and> searchPage_search searchQuery allItems = []
       \<and> searchTopics searchQuery allTopics = []"
  using assms
  by (simp add: searchBar_search_def searchPage_search_def search_def searchTopics_def trim_empty_iff)

theorem search_blank_query_witness:
  "list_all isWhitespace ''   ''
   \<and> collectMatches (toLowerCase ''   '') [blankProbe] \<noteq> []
   \<and> searchBar_search ''   '' [blankProbe] = []
   \<and> searchPage_search ''   '' [blankProbe] = []
   \<and> searchTopics ''   '' [category blankProbe] = []"
proof -
  have h: "\<forall>c\<in>set ''   ''. isWhitespace c"
    by (simp add: isWhitespace_def)
  have m: "collectMatches (toLowerCase ''   '') [blankProbe] \<noteq> []"
    by (simp add: blankProbe_def matchTypeOf_def toLowerCase_def toLowerChar_def)
  from search_blank_query [OF h, of "[blankProbe]" "[category blankProbe]"] h m
  show ?thesis by (simp add: list_all_iff)
qed

section \<open>Resolving slug paths\<close>

lemma find_children_None_iff:
  "find (\<lambda>c. slug c = s) (childrenOf cats pid) = None
     \<longleftrightarrow> \<not> (\<exists>c\<in>set cats. parentId c = pid \<and> slug c = s)"
  by (auto simp: find_None_iff childrenOf_filter)

lemma find_children_SomeD:
  "find (\<lambda>c. slug c = s) (childrenOf cats pid) = Some c
     \<Longrightarrow> c \<in> set cats \<and> parentId c = pid \<and> slug c = s"
  by (auto simp: find_Some_iff childrenOf_filter dest: nth_mem)

lemma resolveSlugs_None_iff:
  "resolveSlugs cats pid path = None \<longleftrightarrow>
     (\<exists>pre s post p. path = pre @ s # post \<and> resolveSlugs cats pid pre = Some p
        \<and> \<not> (\<exists>c\<in>set cats. parentId c = p \<and> slug c = s))"
proof (induction path arbitrary: pid)
  case Nil
  show ?case by simp
next
  case (Cons a path)
  note IH = Cons.IH
  show ?case
  proof (cases "find (\<lambda>c. slug c = a) (childrenOf cats pid)")
    case None
    then have "\<not> (\<exists>c\<in>set cats. parentId c = pid \<and> slug c = a)"
      by (simp add: find_children_None_iff)
    then have "\<exists>pre s post p. a # path = pre @ s # post \<and> resolveSlugs cats pid pre = Some p
        \<and> \<not> (\<exists>c\<in>set cats. parentId c = p \<and> slug c = s)"
      by (intro exI [of _ "[]"] exI [of _ a] exI [of _ path] exI [of _ pid]) simp
    with None show ?thesis by simp
  next
    case (Some found)
    then have ex: "\<exists>c\<in>set cats. parentId c = pid \<and> slug c = a"
      using find_children_None_iff [of a cats pid] by auto
    show ?thesis
    proof
      assume "resolveSlugs cats pid (a # path) = None"
      with Some have "resolveSlugs cats (Some (id_cat found)) path = None" by simp
      then obtain pre s post p where
        "path = pre @ s # post" "resolveSlugs cats (Some (id_cat found)) pre = Some p"
        "\<not> (\<exists>c\<in>set cats. parentId c = p \<and> slug c = s)"
        using IH by blast
      then show "\<exists>pre s post p. a # path = pre @ s # post \<and> resolveSlugs cats pid pre = Some p
        \<and> \<not> (\<exists>c\<in>set cats. parentId c = p \<and> slug c = s)"
        using Some by (intro exI [of _ "a # pre"] exI [of _ s] exI [of _ post] exI [of _ p]) simp
    next
      assume "\<exists>pre s post p. a # path = pre @ s # post \<and> resolveSlugs cats pid pre = Some p
        \<and> \<not> (\<exists>c\<in>set cats. parentId c = p \<and> slug c = s)"
      then obtain pre s post p where d:
        "a # path = pre @ s # post" "resolveSlugs cats pid pre = Some p"
        "\<not> (\<exists>c\<in>set cats. parentId c = p \<and> slug c = s)"
        by blast
      show "resolveSlugs cats pid (a # path) = None"
      proof (cases pre)
        case Nil
        with d ex show ?thesis by auto
      next
        case (Cons b pre')
        with d Some have "path = pre' @ s # post"
          "resolveSlugs cats (Some (id_cat found)) pre' = Some p" by auto
        with d(3) have "\<exists>pre s post p. path = pre @ s # post
            \<and> resolveSlugs cats (Some (id_cat found)) pre = Some p
            \<and> \<not> (\<exists>c\<in>set cats. parentId c = p \<and> slug c = s)"
          by (intro exI [of _ pre'] exI [of _ s] exI [of _ post] exI [of _ p]) simp
        then have "resolveSlugs cats (Some (id_cat found)) path = None"
          by (simp only: IH)
        with Some show ?thesis by simp
      qed
    qed
  qed
qed

lemma resolveSlugs_Some_id:
  "resolveSlugs cats pid path = Some (Some i) \<Longrightarrow> path \<noteq> [] \<Longrightarrow> i \<in> id_cat ` set cats"
proof (induction path arbitrary: pid)
  case Nil
  then show ?case by simp
next
  case (Cons a path)
  note IH = Cons.IH
  from Cons.prems obtain found where f: "find (\<lambda>c. slug c = a) (childrenOf cats pid) = Some found"
    and r: "resolveSlugs cats (Some (id_cat found)) path = Some (Some i)"
    by (auto split: option.splits)
  show ?case
  proof (cases path)
    case Nil
    with r f show ?thesis by (auto dest: find_children_SomeD)
  next
    case (Cons b path')
    with r IH show ?thesis by blast
  qed
qed

lemma resolveSlugs_Some_None:
  "resolveSlugs cats pid path = Some None \<longleftrightarrow> path = [] \<and> pid = None"
proof (induction path arbitrary: pid)
  case Nil
  show ?case by auto
next
  case (Cons a path)
  show ?case by (auto simp: Cons.IH split: option.splits)
qed

text \<open>
  \<open>getTopicMetadata\<close> is a total function with the value \<open>None\<close> for not found. It
  yields \<open>None\<close> on the empty path for every category list, and in general in three
  cases: the path is empty, or some segment has no child with that slug under the parent
  resolved so far, or every segment is matched and the category matched last has the
  empty string as its id.
\<close>

lemma getTopicMetadata_null_cases:
  "getTopicMetadata cats [] = None \<and>
   (getTopicMetadata cats slugPath = None \<longleftrightarrow>
      slugPath = []
    \<or> (\<exists>pre s post pid. slugPath = pre @ s # post \<and> resolveSlugs cats None pre = Some pid
          \<and> \<not> (\<exists>c\<in>set cats. parentId c = pid \<and> slug c = s))
    \<or> resolveSlugs cats None slugPath = Some (Some []))"
proof
  show "getTopicMetadata cats [] = None"
    by (simp add: getTopicMetadata_def findTopicBySlugPath_def)
next
  let ?unmatched = "\<exists>pre s post pid. slugPath = pre @ s # post \<and> resolveSlugs cats None pre = Some pid
          \<and> \<not> (\<exists>c\<in>set cats. parentId c = pid \<and> slug c = s)"
  show "getTopicMetadata cats slugPath = None \<longleftrightarrow>
      slugPath = [] \<or> ?unmatched \<or> resolveSlugs cats None slugPath = Some (Some [])"
  proof (cases "resolveSlugs cats None slugPath")
    case None
    then have ?unmatched by (simp add: resolveSlugs_None_iff)
    with None show ?thesis
      by (simp add: getTopicMetadata_def findTopicBySlugPath_def)
  next
    case (Some r)
    then have nu: "\<not> ?unmatched" using resolveSlugs_None_iff [of cats None slugPath] by simp
    show ?thesis
    proof (cases r)
      case None
      with Some have "slugPath = []" by (simp add: resolveSlugs_Some_None)
      then show ?thesis by (simp add: getTopicMetadata_def findTopicBySlugPath_def)
    next
      case (Some i)
      with \<open>resolveSlugs cats None slugPath = Some r\<close>
      have r: "resolveSlugs cats None slugPath = Some (Some i)" by simp
      then have ne: "slugPath \<noteq> []" by auto
      with r have "i \<in> id_cat ` set cats" by (rule resolveSlugs_Some_id)
      then have "categoryMap cats i \<noteq> None" by (simp add: categoryMap_None_iff)
      with r ne nu show ?thesis
        by (auto simp: getTopicMetadata_def findTopicBySlugPath_def)
    qed
  qed
qed

text \<open>
  For a category list in which no id is the empty string the third case cannot arise:
  the result is \<open>None\<close> exactly when the path is empty or some segment has no child
  with that slug under the parent resolved so far.
\<close>

lemma getTopicMetadata_null_nonempty_ids:
  assumes "[] \<notin> id_cat ` set cats"
  shows "getTopicMetadata cats [] = None \<and>
    (getTopicMetadata cats slugPath = None \<longleftrightarrow>
      slugPath = []
    \<or> (\<exists>pre s post pid. slugPath = pre @ s # post \<and> resolveSlugs cats None pre = Some pid
          \<and> \<not> (\<exists>c\<in>set cats. parentId c = pid \<and> slug c = s)))"
proof -
  have "resolveSlugs cats None slugPath \<noteq> Some (Some [])"
  proof
    assume r: "resolveSlugs cats None slugPath = Some (Some [])"
    then have "slugPath \<noteq> []" by auto
    with r have "[] \<in> id_cat ` set cats" by (rule resolveSlugs_Some_id)
    with assms show False by simp
  qed
  moreover have "getTopicMetadata cats [] = None"
    by (simp add: getTopicMetadata_def findTopicBySlugPath_def)
  ultimately show ?thesis using getTopicMetadata_null_cases [of cats slugPath] by simp
qed

text \<open>
  C3. The result is to be \<open>None\<close> exactly when the path is empty or some segment has
  no matching child. For the list of one root category whose id is the empty string and
  the path of its slug this is not so: the path is not empty, its segment is matched by
  the root category (the loop takes the id \<open>""\<close> as the next parent, like any id), the
  id map holds the category under that id, and the result is \<open>None\<close>, because the test
  \<open>if (parentId)\<close> after the loop takes the empty id for no id.
\<close>

theorem getTopicMetadata_empty_id:
  "id_cat emptyIdRoot = []
   \<and> getTopicMetadata [emptyIdRoot] [''basics''] = None
   \<and> find (\<lambda>c. slug c = ''basics'') (childrenOf [emptyIdRoot] None) = Some emptyIdRoot
   \<and> resolveSlugs [emptyIdRoot] None [''basics''] = Some (Some (id_cat emptyIdRoot))
   \<and> categoryMap [emptyIdRoot] (id_cat emptyIdRoot) = Some emptyIdRoot
   \<and> \<not> (getTopicMetadata [emptyIdRoot] [''basics''] = None \<longleftrightarrow>
        [''basics''] = []
      \<or> (\<exists>pre s post pid. [''basics''] = pre @ s # post
            \<and> resolveSlugs [emptyIdRoot] None pre = Some pid
            \<and> \<not> (\<exists>c\<in>set [emptyIdRoot]. parentId c = pid \<and> slug c = s)))"
proof -
  have n: "getTopicMetadata [emptyIdRoot] [''basics''] = None"
    by (simp add: getTopicMetadata_def findTopicBySlugPath_def childrenOf_filter emptyIdRoot_def)
  have f: "find (\<lambda>c. slug c = ''basics'') (childrenOf [emptyIdRoot] None) = Some emptyIdRoot"
    by (simp add: childrenOf_filter emptyIdRoot_def)
  then have r: "resolveSlugs [emptyIdRoot] None [''basics''] = Some (Some (id_cat emptyIdRoot))"
    by simp
  have m: "categoryMap [emptyIdRoot] (id_cat emptyIdRoot) = Some emptyIdRoot"
    by (simp add: categoryMap_def)
  have "\<not> (\<exists>pre s post pid. [''basics''] = pre @ s # post
            \<and> resolveSlugs [emptyIdRoot] None pre = Some pid
            \<and> \<not> (\<exists>c\<in>set [emptyIdRoot]. parentId c = pid \<and> slug c = s))"
    by (auto simp: Cons_eq_append_conv emptyIdRoot_def)
  moreover have "id_cat emptyIdRoot = []" by (simp add: emptyIdRoot_def)
  ultimately show ?thesis using n f r m by simp
qed

section \<open>The sort\<close>

lemma mset_insert_js: "mset (insert_js cmp x xs) = add_mset x (mset xs)"
  by (induction xs) auto

lemma mset_sort_js: "mset (sort_js cmp xs) = mset xs"
  by (induction xs) (auto simp: mset_insert_js)

lemma set_insert_js: "set (insert_js cmp x xs) = insert x (set xs)"
  by (induction xs) auto

lemma set_sort_js: "set (sort_js cmp xs) = set xs"
  by (induction xs) (auto simp: set_insert_js)

lemma sorted_insert_js:
  assumes total: "\<And>a b. cmp a b \<le> 0 \<or> cmp b a \<le> 0"
    and trans: "\<And>a b c. cmp a b \<le> 0 \<Longrightarrow> cmp b c \<le> 0 \<Longrightarrow> cmp a c \<le> 0"
    and "sorted_wrt (\<lambda>a b. cmp a b \<le> 0) xs"
  shows "sorted_wrt (\<lambda>a b. cmp a b \<le> 0) (insert_js cmp x xs)"
  using assms(3)
proof (induction xs)
  case Nil
  show ?case by simp
next
  case (Cons y ys)
  show ?case
  proof (cases "cmp x y \<le> 0")
    case True
    with Cons.prems trans show ?thesis by auto
  next
    case False
    with total have "cmp y x \<le> 0" by blast
    with False Cons show ?thesis by (auto simp: set_insert_js)
  qed
qed

lemma sorted_sort_js:
  assumes "\<And>a b. cmp a b \<le> 0 \<or> cmp b a \<le> 0"
    and "\<And>a b c. cmp a b \<le> 0 \<Longrightarrow> cmp b c \<le> 0 \<Longrightarrow> cmp a c \<le> 0"
  shows "sorted_wrt (\<lambda>a b. cmp a b \<le> 0) (sort_js cmp xs)"
proof (induction xs)
  case Nil
  show ?case by simp
next
  case (Cons x xs)
  then show ?case using sorted_insert_js [of cmp, OF assms] by simp
qed

text \<open>
  Stability: elements that the comparator does not tell apart keep their order. \<open>P\<close>
  selects a class of such elements.
\<close>

lemma filter_insert_js:
  assumes "\<And>y. P x \<Longrightarrow> P y \<Longrightarrow> cmp x y \<le> 0"
  shows "filter P (insert_js cmp x ys) = (if P x then x # filter P ys else filter P ys)"
  using assms by (induction ys) auto

lemma filter_sort_js:
  assumes "\<And>x y. P x \<Longrightarrow> P y \<Longrightarrow> cmp x y \<le> 0"
  shows "filter P (sort_js cmp xs) = filter P xs"
  using assms by (induction xs) (simp_all add: filter_insert_js)

lemma sorted_byOrder: "sorted_wrt (\<lambda>a b. order a \<le> order b) (sort_js byOrder xs)"
proof -
  have "sorted_wrt (\<lambda>a b. byOrder a b \<le> 0) (sort_js byOrder xs)"
    by (rule sorted_sort_js) (auto simp: byOrder_def)
  then show ?thesis by (simp add: byOrder_def)
qed

lemma stable_byOrder:
  "filter (\<lambda>c. order c = k) (sort_js byOrder xs) = filter (\<lambda>c. order c = k) xs"
  by (rule filter_sort_js) (simp add: byOrder_def)

section \<open>The navigation tree: structure\<close>

lemma buildItems_Nil: "buildItems cats base [] = Some []"
  by (subst buildItems.simps) simp

lemma buildItems_Cons:
  "buildItems cats base (c # rest) =
     Option.bind (buildTree cats (Some (id_cat c)) (base @ ''/'' @ slug c))
       (\<lambda>kids. Option.bind (buildItems cats base rest)
          (\<lambda>items. Some (NavItem (title c) (base @ ''/'' @ slug c) kids # items)))"
  by (subst buildItems.simps) (simp add: buildTree_def)

lemma buildItems_list_all2:
  "buildItems cats base cs = Some items \<Longrightarrow>
     list_all2 (\<lambda>c it. nav_title it = title c \<and> nav_href it = base @ ''/'' @ slug c
        \<and> buildTree cats (Some (id_cat c)) (nav_href it) = Some (nav_children it)) cs items"
proof (induction cs arbitrary: items)
  case Nil
  then show ?case by (simp add: buildItems_Nil)
next
  case (Cons c cs)
  from Cons.prems obtain kids rest where
    k: "buildTree cats (Some (id_cat c)) (base @ ''/'' @ slug c) = Some kids" and
    r: "buildItems cats base cs = Some rest" and
    i: "items = NavItem (title c) (base @ ''/'' @ slug c) kids # rest"
    by (auto simp: buildItems_Cons split: bind_splits)
  from Cons.IH [OF r] k i show ?case by simp
qed

text \<open>With unique ids the recursion never enters a category twice, so it returns.\<close>

lemma chainUp_subset: "chainUp cats P \<Longrightarrow> set P \<subseteq> set cats"
  by (induction cats P rule: chainUp.induct) auto

lemma chainUp_parent_in_rest:
  "chainUp cats (p # rest) \<Longrightarrow> x \<in> set (p # rest)
     \<Longrightarrow> parentId x = None \<or> (\<exists>y\<in>set rest. parentId x = Some (id_cat y))"
proof (induction rest arbitrary: p)
  case Nil
  then show ?case by simp
next
  case (Cons q rest)
  show ?case
  proof (cases "x = p")
    case True
    with Cons.prems(1) show ?thesis by simp
  next
    case False
    with Cons.prems have "chainUp cats (q # rest)" "x \<in> set (q # rest)" by simp_all
    from Cons.IH [OF this] show ?thesis by auto
  qed
qed

lemma chainUp_distinct:
  assumes "distinct (map id_cat cats)" and "chainUp cats P"
  shows "distinct P"
  using assms
proof (induction cats P rule: chainUp.induct)
  case (1 cats)
  show ?case by simp
next
  case (2 cats c)
  show ?case by simp
next
  case (3 cats c p rest)
  from "3.prems"(2) have ch: "chainUp cats (p # rest)" and pc: "parentId c = Some (id_cat p)"
    by simp_all
  from "3.IH" [OF "3.prems"(1) ch] have dp: "distinct (p # rest)" .
  have "c \<notin> set (p # rest)"
  proof
    assume "c \<in> set (p # rest)"
    from chainUp_parent_in_rest [OF ch this] pc obtain y where
      y: "y \<in> set rest" "id_cat y = id_cat p" by auto
    from chainUp_subset [OF ch] y(1) have "y \<in> set cats" "p \<in> set cats" by auto
    with "3.prems"(1) y(2) have "y = p" by (meson distinct_map inj_onD)
    with y(1) dp show False by simp
  qed
  with dp show ?case by simp
qed

lemma chainUp_length:
  assumes "distinct (map id_cat cats)" and "chainUp cats P"
  shows "length P \<le> length cats"
proof -
  from assms have "distinct P" by (rule chainUp_distinct)
  then have "length P = card (set P)" by (simp add: distinct_card)
  also from chainUp_subset [OF assms(2)] have "\<dots> \<le> card (set cats)"
    by (simp add: card_mono)
  also have "\<dots> \<le> length cats" by (rule card_length)
  finally show ?thesis .
qed

lemma chainUp_extend:
  assumes "chainUp cats P" and "c \<in> set cats"
    and "parentId c = (case P of [] \<Rightarrow> None | p # _ \<Rightarrow> Some (id_cat p))"
  shows "chainUp cats (c # P)"
  using assms by (cases P) auto

lemma buildItems_returns:
  assumes d: "distinct (map id_cat cats)"
  shows "chainUp cats P \<Longrightarrow> length cats - length P = n
     \<Longrightarrow> set cs \<subseteq> set (childrenOf cats (case P of [] \<Rightarrow> None | p # _ \<Rightarrow> Some (id_cat p)))
     \<Longrightarrow> \<exists>items. buildItems cats base cs = Some items"
proof (induction n arbitrary: P cs base rule: less_induct)
  case (less n)
  note outer = less.IH
  from less.prems(3) show ?case
  proof (induction cs)
    case Nil
    show ?case by (simp add: buildItems_Nil)
  next
    case (Cons c cs)
    from Cons.prems have c: "c \<in> set cats"
      "parentId c = (case P of [] \<Rightarrow> None | p # _ \<Rightarrow> Some (id_cat p))"
      by (auto simp: childrenOf_filter)
    from chainUp_extend [OF less.prems(1) c] have ch: "chainUp cats (c # P)" .
    from chainUp_length [OF d ch] have "Suc (length P) \<le> length cats" by simp
    with less.prems(2) have lt: "length cats - length (c # P) < n" by simp
    have "set (sort_js byOrder (childrenOf cats (Some (id_cat c))))
        \<subseteq> set (childrenOf cats (case c # P of [] \<Rightarrow> None | p # _ \<Rightarrow> Some (id_cat p)))"
      by (simp add: set_sort_js)
    from outer [OF lt ch refl this] obtain kids where
      "buildItems cats (base @ ''/'' @ slug c) (sort_js byOrder (childrenOf cats (Some (id_cat c))))
         = Some kids"
      by blast
    then have k: "buildTree cats (Some (id_cat c)) (base @ ''/'' @ slug c) = Some kids"
      by (simp add: buildTree_def)
    from Cons.prems have "set cs \<subseteq> set (childrenOf cats (case P of [] \<Rightarrow> None | p # _ \<Rightarrow> Some (id_cat p)))"
      by simp
    from Cons.IH [OF this] obtain rest where "buildItems cats base cs = Some rest" by blast
    with k show ?case by (simp add: buildItems_Cons)
  qed
qed

lemma getNavigationTree_returns:
  assumes "distinct (map id_cat cats)"
  shows "\<exists>tree. getNavigationTree cats = Some tree"
proof -
  have "chainUp cats []" by simp
  from buildItems_returns [OF assms this refl, of "sort_js byOrder (childrenOf cats None)" "''/topics''"]
  show ?thesis by (simp add: getNavigationTree_def buildTree_def set_sort_js)
qed

text \<open>
  The recursion of \<open>buildTree\<close> goes from a category to the categories stored under its
  id, against the edges of the parent graph: it returns when that graph is acyclic.
\<close>

lemma finite_parentGraph: "finite (parentGraph cats)"
proof -
  have "parentGraph cats \<subseteq> set cats \<times> set cats" by (auto simp: parentGraph_def)
  then show ?thesis by (rule finite_subset) simp
qed

lemma buildItems_all:
  assumes "\<And>k b. k \<in> set ks \<Longrightarrow> \<exists>kids. buildTree cats (Some (id_cat k)) b = Some kids"
  shows "\<exists>items. buildItems cats base ks = Some items"
  using assms
proof (induction ks)
  case Nil
  show ?case by (simp add: buildItems_Nil)
next
  case (Cons k ks)
  from Cons.prems [of k "base @ ''/'' @ slug k"] obtain kids where
    "buildTree cats (Some (id_cat k)) (base @ ''/'' @ slug k) = Some kids" by auto
  moreover from Cons obtain items where "buildItems cats base ks = Some items" by auto
  ultimately show ?case by (simp add: buildItems_Cons)
qed

lemma buildTree_acyclic:
  assumes ac: "acyclic (parentGraph cats)"
  shows "c \<in> set cats \<Longrightarrow> \<exists>kids. buildTree cats (Some (id_cat c)) base = Some kids"
proof (induction c arbitrary: base rule: wf_induct_rule [OF finite_acyclic_wf [OF finite_parentGraph ac]])
  case (1 c)
  have "\<exists>kids. buildTree cats (Some (id_cat k)) b = Some kids"
    if "k \<in> set (sort_js byOrder (childrenOf cats (Some (id_cat c))))" for k b
  proof -
    from that have k: "k \<in> set cats" "parentId k = Some (id_cat c)"
      by (simp_all add: set_sort_js childrenOf_filter)
    with 1(2) have "(k, c) \<in> parentGraph cats" by (simp add: parentGraph_def)
    from 1(1) [OF this k(1)] show ?thesis .
  qed
  then have "\<exists>items. buildItems cats base (sort_js byOrder (childrenOf cats (Some (id_cat c)))) = Some items"
    by (rule buildItems_all)
  then show ?case by (simp add: buildTree_def)
qed

lemma getNavigationTree_acyclic:
  assumes "acyclic (parentGraph cats)"
  shows "\<exists>tree. getNavigationTree cats = Some tree"
proof -
  have "\<exists>kids. buildTree cats (Some (id_cat k)) b = Some kids"
    if "k \<in> set (sort_js byOrder (childrenOf cats None))" for k b
  proof -
    from that have "k \<in> set cats" by (simp add: set_sort_js childrenOf_filter)
    then show ?thesis by (rule buildTree_acyclic [OF assms])
  qed
  then have "\<exists>items. buildItems cats ''/topics'' (sort_js byOrder (childrenOf cats None)) = Some items"
    by (rule buildItems_all)
  then show ?thesis by (simp add: getNavigationTree_def buildTree_def)
qed

text \<open>
  C6. \<open>getNavigationTree\<close> returns a tree when the ids are unique. Every level of the
  tree is the result of one call of \<open>buildTree\<close> (\<open>getNavigationTree\<close> is the call for
  \<open>null\<close> and \<open>/topics\<close>, and the children of every item are again the result of such a
  call). The items of a level are, one for one and in this order, the categories stored
  under the parent, sorted by ascending \<open>order\<close>; categories with the same \<open>order\<close>
  keep the order of the input array.
\<close>

theorem buildTree_levels_sorted:
  "(distinct (map id_cat cats) \<longrightarrow> (\<exists>tree. getNavigationTree cats = Some tree))
   \<and> getNavigationTree cats = buildTree cats None ''/topics''
   \<and> (\<forall>pid base items. buildTree cats pid base = Some items \<longrightarrow>
        (\<exists>cs. mset cs = mset (filter (\<lambda>c. parentId c = pid) cats)
           \<and> sorted_wrt (\<lambda>a b. order a \<le> order b) cs
           \<and> (\<forall>k. filter (\<lambda>c. order c = k) cs
                    = filter (\<lambda>c. parentId c = pid \<and> order c = k) cats)
           \<and> list_all2 (\<lambda>c it. nav_title it = title c \<and> nav_href it = base @ ''/'' @ slug c
                 \<and> buildTree cats (Some (id_cat c)) (nav_href it) = Some (nav_children it)) cs items))"
proof (intro conjI allI impI)
  assume "distinct (map id_cat cats)"
  then show "\<exists>tree. getNavigationTree cats = Some tree" by (rule getNavigationTree_returns)
next
  show "getNavigationTree cats = buildTree cats None ''/topics''"
    by (simp add: getNavigationTree_def)
next
  fix pid base items
  assume assms: "buildTree cats pid base = Some items"
  let ?cs = "sort_js byOrder (childrenOf cats pid)"
  have 1: "mset ?cs = mset (filter (\<lambda>c. parentId c = pid) cats)"
    by (simp add: mset_sort_js childrenOf_filter)
  have 2: "sorted_wrt (\<lambda>a b. order a \<le> order b) ?cs"
    by (rule sorted_byOrder)
  have 3: "\<forall>k. filter (\<lambda>c. order c = k) ?cs = filter (\<lambda>c. parentId c = pid \<and> order c = k) cats"
    by (simp add: stable_byOrder childrenOf_filter conj_commute)
  from assms have 4: "list_all2 (\<lambda>c it. nav_title it = title c \<and> nav_href it = base @ ''/'' @ slug c
        \<and> buildTree cats (Some (id_cat c)) (nav_href it) = Some (nav_children it)) ?cs items"
    unfolding buildTree_def [of cats pid base] by (rule buildItems_list_all2)
  from 1 2 3 4 show "\<exists>cs. mset cs = mset (filter (\<lambda>c. parentId c = pid) cats)
           \<and> sorted_wrt (\<lambda>a b. order a \<le> order b) cs
           \<and> (\<forall>k. filter (\<lambda>c. order c = k) cs
                    = filter (\<lambda>c. parentId c = pid \<and> order c = k) cats)
           \<and> list_all2 (\<lambda>c it. nav_title it = title c \<and> nav_href it = base @ ''/'' @ slug c
                 \<and> buildTree cats (Some (id_cat c)) (nav_href it) = Some (nav_children it)) cs items"
    by blast
qed

lemma nav_AB:
  "getNavigationTree [catA, catB, catB2] =
     Some [NavItem ''Beta'' ''/topics/beta'' [], NavItem ''Gamma'' ''/topics/gamma'' [],
           NavItem ''Alpha'' ''/topics/alpha'' []]"
  by (simp add: getNavigationTree_def buildTree_def buildItems_Nil buildItems_Cons
      childrenOf_filter byOrder_def catA_def catB_def catB2_def)

theorem buildTree_levels_sorted_witness:
  "getNavigationTree [catA, catB, catB2] =
     Some [NavItem ''Beta'' ''/topics/beta'' [], NavItem ''Gamma'' ''/topics/gamma'' [],
           NavItem ''Alpha'' ''/topics/alpha'' []]
   \<and> (\<exists>cs. mset cs = mset (filter (\<lambda>c. parentId c = None) [catA, catB, catB2])
           \<and> sorted_wrt (\<lambda>a b. order a \<le> order b) cs
           \<and> (\<forall>k. filter (\<lambda>c. order c = k) cs
                    = filter (\<lambda>c. parentId c = None \<and> order c = k) [catA, catB, catB2])
           \<and> list_all2 (\<lambda>c it. nav_title it = title c \<and> nav_href it = ''/topics'' @ ''/'' @ slug c
                 \<and> buildTree [catA, catB, catB2] (Some (id_cat c)) (nav_href it) = Some (nav_children it))
               cs [NavItem ''Beta'' ''/topics/beta'' [], NavItem ''Gamma'' ''/topics/gamma'' [],
                   NavItem ''Alpha'' ''/topics/alpha'' []])"
proof -
  have h: "buildTree [catA, catB, catB2] None ''/topics'' =
     Some [NavItem ''Beta'' ''/topics/beta'' [], NavItem ''Gamma'' ''/topics/gamma'' [],
           NavItem ''Alpha'' ''/topics/alpha'' []]"
    using nav_AB by (simp add: getNavigationTree_def)
  from buildTree_levels_sorted [of "[catA, catB, catB2]"] h nav_AB show ?thesis by blast
qed

section \<open>Search results\<close>













section \<open>Walks of the parent chain\<close>

lemma walkSlugs_None: "walkSlugs m None segs = Some segs"
  by (subst walkSlugs.simps) simp

lemma walkSlugs_Some: "walkSlugs m (Some c) segs = walkSlugs m (parentOf m c) (slug c # segs)"
  by (subst walkSlugs.simps) simp

lemma rootWalk_None: "rootWalk m r None = Some r"
  by (subst rootWalk.simps) simp

lemma rootWalk_Some:
  "rootWalk m r (Some c) =
     (case parentId c of None \<Rightarrow> Some r
      | Some p \<Rightarrow> if p = [] then Some r else rootWalk m p (m p))"
  by (subst rootWalk.simps) simp

lemma parentOf_in_cats: "parentOf (categoryMap cats) c = Some p \<Longrightarrow> p \<in> set cats"
  by (auto simp: parentOf_def split: option.splits if_splits dest: categoryMap_SomeD)

lemma parentRel_subset: "parentRel cats \<subseteq> set cats \<times> set cats"
  by (auto simp: parentRel_def dest: parentOf_in_cats)

lemma finite_parentRel: "finite (parentRel cats)"
  by (rule finite_subset [OF parentRel_subset]) simp

lemma wf_parentRel: "acyclic (parentRel cats) \<Longrightarrow> wf ((parentRel cats)\<inverse>)"
  by (rule finite_acyclic_wf_converse [OF finite_parentRel])

lemma reached_root:
  assumes "parentOf (categoryMap cats) c = None"
  shows "reached cats c = {}"
proof -
  have "(c, x) \<notin> (parentRel cats)\<^sup>+" for x
  proof
    assume "(c, x) \<in> (parentRel cats)\<^sup>+"
    then obtain y where "(c, y) \<in> parentRel cats" by (auto dest: tranclD)
    with assms show False by (simp add: parentRel_def)
  qed
  then show ?thesis by (simp add: reached_def)
qed

lemma reached_step:
  assumes "c \<in> set cats" "parentOf (categoryMap cats) c = Some p"
  shows "reached cats c = insert p (reached cats p)"
proof -
  from assms have edge: "(c, p) \<in> parentRel cats" by (simp add: parentRel_def)
  have "(c, x) \<in> (parentRel cats)\<^sup>+ \<longleftrightarrow> x = p \<or> (p, x) \<in> (parentRel cats)\<^sup>+" for x
  proof
    assume "(c, x) \<in> (parentRel cats)\<^sup>+"
    then obtain y where y: "(c, y) \<in> parentRel cats" "(y, x) \<in> (parentRel cats)\<^sup>*"
      by (auto dest: tranclD)
    from y(1) assms(2) have "y = p" by (simp add: parentRel_def)
    with y(2) show "x = p \<or> (p, x) \<in> (parentRel cats)\<^sup>+"
      by (auto simp: rtrancl_eq_or_trancl)
  next
    assume "x = p \<or> (p, x) \<in> (parentRel cats)\<^sup>+"
    with edge show "(c, x) \<in> (parentRel cats)\<^sup>+"
      by (auto intro: trancl_into_trancl2)
  qed
  then show ?thesis by (auto simp: reached_def)
qed

lemma walk_acyclic:
  assumes ac: "acyclic (parentRel cats)"
  shows "c \<in> set cats \<Longrightarrow>
    \<exists>segs. (\<forall>acc. walkSlugs (categoryMap cats) (Some c) acc = Some (segs @ acc))
      \<and> length segs = Suc (card (reached cats c)) \<and> finite (reached cats c)"
proof (induction c rule: wf_induct_rule [OF wf_parentRel [OF ac]])
  case (1 c)
  let ?m = "categoryMap cats"
  show ?case
  proof (cases "parentOf ?m c")
    case None
    then have "\<forall>acc. walkSlugs ?m (Some c) acc = Some ([slug c] @ acc)"
      by (simp add: walkSlugs_Some walkSlugs_None)
    moreover from None have "reached cats c = {}" by (rule reached_root)
    ultimately show ?thesis by (intro exI [of _ "[slug c]"]) simp
  next
    case (Some p)
    with 1(2) have edge: "(c, p) \<in> parentRel cats" by (simp add: parentRel_def)
    from Some have p: "p \<in> set cats" by (rule parentOf_in_cats)
    from edge have "(p, c) \<in> (parentRel cats)\<inverse>" by simp
    from 1(1) [OF this p] obtain segs where
      w: "\<forall>acc. walkSlugs ?m (Some p) acc = Some (segs @ acc)" and
      l: "length segs = Suc (card (reached cats p))" and
      f: "finite (reached cats p)"
      by blast
    from ac have "p \<notin> reached cats p" by (simp add: reached_def acyclic_def)
    with f have "card (insert p (reached cats p)) = Suc (card (reached cats p))" by simp
    with reached_step [OF 1(2) Some] f
    have c: "card (reached cats c) = Suc (card (reached cats p))" "finite (reached cats c)"
      by simp_all
    from w Some have "\<forall>acc. walkSlugs ?m (Some c) acc = Some ((segs @ [slug c]) @ acc)"
      by (simp add: walkSlugs_Some)
    with l c show ?thesis by (intro exI [of _ "segs @ [slug c]"]) simp
  qed
qed

lemma slugPaths_total:
  assumes "\<And>c. c \<in> set cs \<Longrightarrow> \<exists>segs. walkSlugs m (Some c) [] = Some segs"
  shows "\<exists>paths. slugPaths m cs = Some paths \<and> length paths = length cs"
  using assms
proof (induction cs)
  case Nil
  show ?case by simp
next
  case (Cons c cs)
  from Cons.prems obtain segs where "walkSlugs m (Some c) [] = Some segs" by auto
  moreover from Cons obtain paths where "slugPaths m cs = Some paths" "length paths = length cs"
    by auto
  ultimately show ?case by simp
qed

lemma slugPaths_nth:
  "slugPaths m cs = Some paths \<Longrightarrow> i < length cs
     \<Longrightarrow> walkSlugs m (Some (cs ! i)) [] = Some (paths ! i)"
proof (induction cs arbitrary: paths i)
  case Nil
  then show ?case by simp
next
  case (Cons c cs)
  from Cons.prems(1) obtain sp rest where
    s: "walkSlugs m (Some c) [] = Some sp" "slugPaths m cs = Some rest" "paths = sp # rest"
    by (auto split: option.splits)
  show ?case
  proof (cases i)
    case 0
    with s show ?thesis by simp
  next
    case (Suc j)
    with Cons.prems(2) have "j < length cs" by simp
    from Cons.IH [OF s(2) this] s(3) Suc show ?thesis by simp
  qed
qed

lemma rootWalkRounds_None: "rootWalkRounds m r None n = Some (r, n)"
  by (subst rootWalkRounds.simps) simp

lemma rootWalkRounds_Some:
  "rootWalkRounds m r (Some c) n =
     (case parentId c of None \<Rightarrow> Some (r, n)
      | Some p \<Rightarrow> if p = [] then Some (r, n) else rootWalkRounds m p (m p) (Suc n))"
  by (subst rootWalkRounds.simps) simp

text \<open>
  The counter changes nothing about the loop: with it the loop returns exactly when it
  returns without, and the same root id.
\<close>

lemma rootWalkRounds_fst:
  assumes "rootWalkRounds m r cur n = Some y"
  shows "rootWalk m r cur = Some (fst y)"
proof (rule rootWalkRounds.raw_induct
    [where P = "\<lambda>m r cur n y. rootWalk m r cur = Some (fst y)", OF _ assms])
  fix f and m :: "string \<Rightarrow> Category option" and r and cur :: "Category option"
    and n :: nat and y :: "string \<times> nat"
  assume IH: "\<And>m r cur n y. f m r cur n = Some y \<Longrightarrow> rootWalk m r cur = Some (fst y)"
    and st: "(case cur of None \<Rightarrow> Some (r, n)
        | Some c \<Rightarrow>
            (case parentId c of None \<Rightarrow> Some (r, n)
             | Some p \<Rightarrow> if p = [] then Some (r, n) else f m p (m p) (Suc n))) = Some y"
  show "rootWalk m r cur = Some (fst y)"
  proof (cases cur)
    case None
    with st show ?thesis by (auto simp: rootWalk_None)
  next
    case (Some c)
    show ?thesis
    proof (cases "\<exists>p. parentId c = Some p \<and> p \<noteq> []")
      case True
      then obtain p where p: "parentId c = Some p" "p \<noteq> []" by blast
      with st Some have "f m p (m p) (Suc n) = Some y" by simp
      then have "rootWalk m p (m p) = Some (fst y)" by (rule IH)
      with p Some show ?thesis by (simp add: rootWalk_Some)
    next
      case False
      with st Some show ?thesis by (auto simp: rootWalk_Some split: option.splits)
    qed
  qed
qed

lemma rootWalk_rounds:
  assumes "rootWalk m r cur = Some x"
  shows "\<forall>n. \<exists>k. rootWalkRounds m r cur n = Some (x, k)"
proof (rule rootWalk.raw_induct
    [where P = "\<lambda>m r cur x. \<forall>n. \<exists>k. rootWalkRounds m r cur n = Some (x, k)", OF _ assms])
  fix f and m :: "string \<Rightarrow> Category option" and r and cur :: "Category option"
    and x :: string
  assume IH: "\<And>m r cur x. f m r cur = Some x
      \<Longrightarrow> \<forall>n. \<exists>k. rootWalkRounds m r cur n = Some (x, k)"
    and st: "(case cur of None \<Rightarrow> Some r
        | Some c \<Rightarrow>
            (case parentId c of None \<Rightarrow> Some r
             | Some p \<Rightarrow> if p = [] then Some r else f m p (m p))) = Some x"
  show "\<forall>n. \<exists>k. rootWalkRounds m r cur n = Some (x, k)"
  proof (cases cur)
    case None
    with st show ?thesis by (auto simp: rootWalkRounds_None)
  next
    case (Some c)
    show ?thesis
    proof (cases "\<exists>p. parentId c = Some p \<and> p \<noteq> []")
      case True
      then obtain p where p: "parentId c = Some p" "p \<noteq> []" by blast
      with st Some have "f m p (m p) = Some x" by simp
      then have "\<forall>n. \<exists>k. rootWalkRounds m p (m p) n = Some (x, k)" by (rule IH)
      with p Some show ?thesis by (simp add: rootWalkRounds_Some)
    next
      case False
      with st Some show ?thesis by (auto simp: rootWalkRounds_Some split: option.splits)
    qed
  qed
qed

lemma rootRounds_rootIdOf: "map_option fst (rootRounds m resultId) = rootIdOf m resultId"
proof (cases "rootWalkRounds m resultId (m resultId) 0")
  case None
  have "rootWalk m resultId (m resultId) = None"
  proof (rule ccontr)
    assume "rootWalk m resultId (m resultId) \<noteq> None"
    then obtain x where "rootWalk m resultId (m resultId) = Some x" by auto
    from rootWalk_rounds [OF this, THEN spec, of 0] None show False by simp
  qed
  with None show ?thesis by (simp add: rootRounds_def rootIdOf_def)
next
  case (Some y)
  from rootWalkRounds_fst [OF this] Some show ?thesis by (simp add: rootRounds_def rootIdOf_def)
qed

lemma parentRel_parentGraph: "parentRel cats \<subseteq> parentGraph cats"
  by (auto simp: parentRel_def parentGraph_def parentOf_def
      split: option.splits if_splits dest: categoryMap_SomeD)

lemma acyclic_parentRel: "acyclic (parentGraph cats) \<Longrightarrow> acyclic (parentRel cats)"
  by (rule acyclic_subset [OF _ parentRel_parentGraph])

lemma parentRel_eq_parentGraph:
  assumes "distinct (map id_cat cats)" and "[] \<notin> id_cat ` set cats"
  shows "parentRel cats = parentGraph cats"
proof
  show "parentRel cats \<subseteq> parentGraph cats" by (rule parentRel_parentGraph)
next
  show "parentGraph cats \<subseteq> parentRel cats"
  proof
    fix e assume "e \<in> parentGraph cats"
    then obtain c p where e: "e = (c, p)" "c \<in> set cats" "p \<in> set cats"
      "parentId c = Some (id_cat p)"
      by (auto simp: parentGraph_def)
    from e(3) assms(2) have "id_cat p \<noteq> []" by force
    moreover from assms(1) e(3) have "categoryMap cats (id_cat p) = Some p"
      by (rule categoryMap_distinct)
    ultimately have "parentOf (categoryMap cats) c = Some p"
      using e(4) by (simp add: parentOf_def)
    with e show "e \<in> parentRel cats" by (simp add: parentRel_def)
  qed
qed

lemma reached_ancestors:
  assumes "distinct (map id_cat cats)" and "[] \<notin> id_cat ` set cats"
  shows "reached cats c = ancestors cats c"
  by (simp add: reached_def ancestors_def parentRel_eq_parentGraph [OF assms])

lemma finite_reached: "finite (reached cats c)"
proof -
  have "reached cats c \<subseteq> set cats"
    using trancl_subset_Sigma [OF parentRel_subset] by (auto simp: reached_def)
  then show ?thesis by (rule finite_subset) simp
qed

lemma reached_card:
  assumes "acyclic (parentRel cats)" and "c \<in> set cats"
    and "parentOf (categoryMap cats) c = Some p"
  shows "card (reached cats c) = Suc (card (reached cats p))"
proof -
  from assms(1) have "p \<notin> reached cats p" by (simp add: reached_def acyclic_def)
  with finite_reached [of cats p] reached_step [OF assms(2,3)] show ?thesis by simp
qed

lemma rootRounds_acyclic:
  assumes ac: "acyclic (parentRel cats)"
  shows "c \<in> set cats \<Longrightarrow>
    \<exists>r k. rootWalk (categoryMap cats) rid (Some c) = Some r
      \<and> rootWalkRounds (categoryMap cats) rid (Some c) n = Some (r, n + k)
      \<and> card (reached cats c) \<le> k \<and> k \<le> Suc (card (reached cats c))
      \<and> ((\<forall>a\<in>insert c (reached cats c). \<forall>p. parentId a = Some p \<and> p \<noteq> []
              \<longrightarrow> categoryMap cats p \<noteq> None) \<longrightarrow> k = card (reached cats c))"
proof (induction c arbitrary: rid n rule: wf_induct_rule [OF wf_parentRel [OF ac]])
  case (1 c)
  let ?m = "categoryMap cats"
  show ?case
  proof (cases "parentOf ?m c")
    case None
    then have r0: "reached cats c = {}" by (rule reached_root)
    show ?thesis
    proof (cases "\<exists>p. parentId c = Some p \<and> p \<noteq> []")
      case True
      then obtain p where p: "parentId c = Some p" "p \<noteq> []" by blast
      with None have mp: "?m p = None" by (simp add: parentOf_def)
      from p mp have "rootWalk ?m rid (Some c) = Some p"
        "rootWalkRounds ?m rid (Some c) n = Some (p, n + 1)"
        by (simp_all add: rootWalk_Some rootWalk_None rootWalkRounds_Some rootWalkRounds_None)
      moreover from p mp have "\<not> (\<forall>a\<in>insert c (reached cats c). \<forall>p. parentId a = Some p \<and> p \<noteq> []
              \<longrightarrow> ?m p \<noteq> None)" by auto
      ultimately show ?thesis using r0
        by (intro exI [of _ p] exI [of _ 1]) simp
    next
      case False
      then have "rootWalk ?m rid (Some c) = Some rid"
        "rootWalkRounds ?m rid (Some c) n = Some (rid, n + 0)"
        by (auto simp: rootWalk_Some rootWalkRounds_Some split: option.splits)
      then show ?thesis using r0
        by (intro exI [of _ rid] exI [of _ 0]) simp
    qed
  next
    case (Some q)
    then obtain i where i: "parentId c = Some i" "i \<noteq> []" "?m i = Some q"
      by (auto simp: parentOf_def split: option.splits if_splits)
    from Some 1(2) have "(q, c) \<in> (parentRel cats)\<inverse>" by (simp add: parentRel_def)
    moreover from Some have q: "q \<in> set cats" by (rule parentOf_in_cats)
    ultimately obtain r k where
      w: "rootWalk ?m i (Some q) = Some r"
      "rootWalkRounds ?m i (Some q) (Suc n) = Some (r, Suc n + k)"
      "card (reached cats q) \<le> k" "k \<le> Suc (card (reached cats q))"
      "(\<forall>a\<in>insert q (reached cats q). \<forall>p. parentId a = Some p \<and> p \<noteq> []
              \<longrightarrow> ?m p \<noteq> None) \<longrightarrow> k = card (reached cats q)"
      using 1(1) [of q i "Suc n"] by blast
    have c: "card (reached cats c) = Suc (card (reached cats q))"
      by (rule reached_card [OF ac 1(2) Some])
    have s: "reached cats c = insert q (reached cats q)"
      by (rule reached_step [OF 1(2) Some])
    from w(1,2) i have "rootWalk ?m rid (Some c) = Some r"
      "rootWalkRounds ?m rid (Some c) n = Some (r, n + Suc k)"
      by (simp_all add: rootWalk_Some rootWalkRounds_Some)
    moreover from w(3,4) c have "card (reached cats c) \<le> Suc k" "Suc k \<le> Suc (card (reached cats c))"
      by simp_all
    moreover have "(\<forall>a\<in>insert c (reached cats c). \<forall>p. parentId a = Some p \<and> p \<noteq> []
              \<longrightarrow> ?m p \<noteq> None) \<longrightarrow> Suc k = card (reached cats c)"
      using w(5) c s by auto
    ultimately show ?thesis
      by (intro exI [of _ r] exI [of _ "Suc k"]) simp
  qed
qed


text \<open>
  C5 (as amended). When the parent graph of the category list is acyclic, every walk of
  the parent chain from a category of the list returns: the walk of \<open>buildHref\<close> and
  \<open>getAllTopicSlugs\<close>, and the root-ancestor loop of the search page. When moreover the
  ids of the list are unique and none is the empty string, the rounds of the loops are
  counted by the ancestors. The walk of \<open>buildHref\<close> and \<open>getAllTopicSlugs\<close> puts one
  slug in front of the path in each round, and it runs one round for the category and one
  for each of its ancestors: it follows as many parent links as the category has
  ancestors. The root-ancestor loop runs one round for each ancestor when the chain of
  the category is resolved, and in any case at most one round more.
\<close>

theorem parent_walk_terminates:
  assumes "acyclic (parentGraph cats)" and "c \<in> set cats"
  shows "(\<exists>segs. walkSlugs (categoryMap cats) (Some c) [] = Some segs
            \<and> buildHref c (categoryMap cats) = Some (''/topics/'' @ join segs ''/'')
            \<and> (distinct (map id_cat cats) \<and> [] \<notin> id_cat ` set cats
                 \<longrightarrow> length segs = Suc (card (ancestors cats c))))
       \<and> (\<exists>paths. getAllTopicSlugs cats = Some paths \<and> length paths = length cats
            \<and> (distinct (map id_cat cats) \<and> [] \<notin> id_cat ` set cats
                 \<longrightarrow> (\<forall>i<length cats.
                        length (paths ! i) = Suc (card (ancestors cats (cats ! i))))))
       \<and> (\<exists>r n. rootIdOf (categoryMap cats) (id_cat c) = Some r
            \<and> rootRounds (categoryMap cats) (id_cat c) = Some (r, n)
            \<and> (distinct (map id_cat cats) \<and> [] \<notin> id_cat ` set cats
                 \<longrightarrow> card (ancestors cats c) \<le> n \<and> n \<le> Suc (card (ancestors cats c))
                    \<and> (chainResolved cats c \<longrightarrow> n = card (ancestors cats c))))"
proof -
  let ?m = "categoryMap cats"
  let ?ids = "distinct (map id_cat cats) \<and> [] \<notin> id_cat ` set cats"
  from assms(1) have ac: "acyclic (parentRel cats)" by (rule acyclic_parentRel)
  have w: "\<exists>segs. walkSlugs ?m (Some d) [] = Some segs \<and> length segs = Suc (card (reached cats d))"
    if "d \<in> set cats" for d
    using walk_acyclic [OF ac that] by (metis append_Nil2)
  from w [OF assms(2)] obtain segs where
    segs: "walkSlugs ?m (Some c) [] = Some segs" "length segs = Suc (card (reached cats c))"
    by blast
  from segs(1) have "buildHref c ?m = Some (''/topics/'' @ join segs ''/'')"
    by (simp add: buildHref_def)
  moreover from segs(2) have "?ids \<longrightarrow> length segs = Suc (card (ancestors cats c))"
    by (simp add: reached_ancestors)
  ultimately have 1: "\<exists>segs. walkSlugs ?m (Some c) [] = Some segs
            \<and> buildHref c ?m = Some (''/topics/'' @ join segs ''/'')
            \<and> (?ids \<longrightarrow> length segs = Suc (card (ancestors cats c)))"
    using segs(1) by blast
  have "\<exists>paths. slugPaths ?m cats = Some paths \<and> length paths = length cats"
    by (rule slugPaths_total) (use w in blast)
  then obtain paths where p: "slugPaths ?m cats = Some paths" "length paths = length cats"
    by blast
  have "length (paths ! i) = Suc (card (ancestors cats (cats ! i)))"
    if "?ids" "i < length cats" for i
  proof -
    from that(2) have "cats ! i \<in> set cats" by simp
    from w [OF this] slugPaths_nth [OF p(1) that(2)]
    have "length (paths ! i) = Suc (card (reached cats (cats ! i)))" by auto
    with that(1) show ?thesis by (simp add: reached_ancestors)
  qed
  with p have 2: "\<exists>paths. getAllTopicSlugs cats = Some paths \<and> length paths = length cats
            \<and> (?ids \<longrightarrow> (\<forall>i<length cats.
                        length (paths ! i) = Suc (card (ancestors cats (cats ! i)))))"
    by (auto simp: getAllTopicSlugs_def)
  have 3: "\<exists>r n. rootIdOf ?m (id_cat c) = Some r \<and> rootRounds ?m (id_cat c) = Some (r, n)
            \<and> (?ids \<longrightarrow> card (ancestors cats c) \<le> n \<and> n \<le> Suc (card (ancestors cats c))
                    \<and> (chainResolved cats c \<longrightarrow> n = card (ancestors cats c)))"
  proof (cases "?ids")
    case True
    then have d: "distinct (map id_cat cats)" and ne: "[] \<notin> id_cat ` set cats" by simp_all
    from d assms(2) have mc: "?m (id_cat c) = Some c" by (rule categoryMap_distinct)
    from rootRounds_acyclic [OF ac assms(2), of "id_cat c" 0] obtain r k where
      k: "rootWalk ?m (id_cat c) (Some c) = Some r"
      "rootWalkRounds ?m (id_cat c) (Some c) 0 = Some (r, 0 + k)"
      "card (reached cats c) \<le> k" "k \<le> Suc (card (reached cats c))"
      "(\<forall>a\<in>insert c (reached cats c). \<forall>p. parentId a = Some p \<and> p \<noteq> []
              \<longrightarrow> ?m p \<noteq> None) \<longrightarrow> k = card (reached cats c)"
      by blast
    have ra: "reached cats c = ancestors cats c" by (rule reached_ancestors [OF d ne])
    have "k = card (ancestors cats c)" if "chainResolved cats c"
    proof -
      from that have "\<forall>a\<in>insert c (reached cats c). \<forall>p. parentId a = Some p \<and> p \<noteq> []
              \<longrightarrow> ?m p \<noteq> None"
        by (auto simp: chainResolved_def ra categoryMap_None_iff)
      with k(5) ra show ?thesis by simp
    qed
    with k mc ra show ?thesis
      by (intro exI [of _ r] exI [of _ k]) (simp add: rootIdOf_def rootRounds_def)
  next
    case False
    show ?thesis
    proof (cases "?m (id_cat c)")
      case None
      with False show ?thesis
        by (auto simp: rootIdOf_def rootRounds_def rootWalk_None rootWalkRounds_None)
    next
      case (Some d)
      then have "d \<in> set cats" by (auto dest: categoryMap_SomeD)
      from rootRounds_acyclic [OF ac this, of "id_cat c" 0] Some False show ?thesis
        by (auto simp: rootIdOf_def rootRounds_def)
    qed
  qed
  show ?thesis by (intro conjI 1 2 3)
qed

lemma parentGraph_list:
  "parentGraph cats =
     set (concat (map (\<lambda>c. map (Pair c) (filter (\<lambda>p. parentId c = Some (id_cat p)) cats)) cats))"
  by (auto simp: parentGraph_def)

lemma trancl_edge: "{(a, b)}\<^sup>+ = {(a, b)}"
  by (auto simp: trancl_insert)

lemma acyclic_edge: "a \<noteq> b \<Longrightarrow> acyclic {(a, b)}"
  by (simp add: acyclic_def trancl_edge)

lemma example_fields:
  "id_cat rootFoundations = ''foundations''" "parentId rootFoundations = None"
  "id_cat childSpeech = ''speech-recognition''" "parentId childSpeech = Some ''foundations''"
  by (simp_all add: rootFoundations_def childSpeech_def)

lemma example_neq: "childSpeech \<noteq> rootFoundations"
proof
  assume "childSpeech = rootFoundations"
  then have "id_cat childSpeech = id_cat rootFoundations" by simp
  then show False by (simp add: example_fields)
qed

lemma parentGraph_example:
  "parentGraph [rootFoundations, childSpeech] = {(childSpeech, rootFoundations)}"
  by (simp add: parentGraph_list example_fields)

lemma acyclic_example: "acyclic (parentGraph [rootFoundations, childSpeech])"
  unfolding parentGraph_example by (rule acyclic_edge [OF example_neq])

lemma ancestors_example:
  "ancestors [rootFoundations, childSpeech] childSpeech = {rootFoundations}"
  "ancestors [rootFoundations, childSpeech] rootFoundations = {}"
  unfolding ancestors_def parentGraph_example trancl_edge
  using example_neq by auto

lemma chainResolved_example: "chainResolved [rootFoundations, childSpeech] childSpeech"
  by (simp add: chainResolved_def ancestors_example example_fields)

theorem parent_walk_terminates_witness:
  "acyclic (parentGraph [rootFoundations, childSpeech])
   \<and> distinct (map id_cat [rootFoundations, childSpeech])
   \<and> [] \<notin> id_cat ` set [rootFoundations, childSpeech]
   \<and> chainResolved [rootFoundations, childSpeech] childSpeech
   \<and> card (ancestors [rootFoundations, childSpeech] childSpeech) = 1
   \<and> walkSlugs (categoryMap [rootFoundations, childSpeech]) (Some childSpeech) []
       = Some [''foundations'', ''speech-recognition'']
   \<and> buildHref childSpeech (categoryMap [rootFoundations, childSpeech])
       = Some ''/topics/foundations/speech-recognition''
   \<and> getAllTopicSlugs [rootFoundations, childSpeech]
       = Some [[''foundations''], [''foundations'', ''speech-recognition'']]
   \<and> rootIdOf (categoryMap [rootFoundations, childSpeech]) ''speech-recognition'' = Some ''foundations''
   \<and> rootRounds (categoryMap [rootFoundations, childSpeech]) ''speech-recognition''
       = Some (''foundations'', 1)"
proof -
  let ?cats = "[rootFoundations, childSpeech]"
  let ?m = "categoryMap ?cats"
  have c: "childSpeech \<in> set ?cats" by simp
  have d: "distinct (map id_cat ?cats)" "[] \<notin> id_cat ` set ?cats"
    by (simp_all add: rootFoundations_def childSpeech_def)
  have n: "card (ancestors ?cats childSpeech) = 1" by (simp add: ancestors_example)
  have i: "id_cat childSpeech = ''speech-recognition''" by (simp add: childSpeech_def)
  note t = parent_walk_terminates [OF acyclic_example c]
  from t [THEN conjunct1] obtain segs where
    s: "walkSlugs ?m (Some childSpeech) [] = Some segs"
       "buildHref childSpeech ?m = Some (''/topics/'' @ join segs ''/'')"
    by blast
  from t [THEN conjunct2, THEN conjunct2] obtain r k where
    r0: "rootIdOf ?m (id_cat childSpeech) = Some r"
       "rootRounds ?m (id_cat childSpeech) = Some (r, k)"
    and k: "distinct (map id_cat ?cats) \<and> [] \<notin> id_cat ` set ?cats \<longrightarrow>
       card (ancestors ?cats childSpeech) \<le> k \<and> k \<le> Suc (card (ancestors ?cats childSpeech))
       \<and> (chainResolved ?cats childSpeech \<longrightarrow> k = card (ancestors ?cats childSpeech))"
    by blast
  from k d chainResolved_example n have "k = 1" by simp
  with r0 have r: "rootIdOf ?m (id_cat childSpeech) = Some r"
       "rootRounds ?m (id_cat childSpeech) = Some (r, 1)"
    by simp_all
  have w: "walkSlugs ?m (Some childSpeech) [] = Some [''foundations'', ''speech-recognition'']"
    by (simp add: walkSlugs_Some walkSlugs_None parentOf_def categoryMap_def
        rootFoundations_def childSpeech_def)
  have w0: "walkSlugs ?m (Some rootFoundations) [] = Some [''foundations'']"
    by (simp add: walkSlugs_Some walkSlugs_None parentOf_def categoryMap_def
        rootFoundations_def childSpeech_def)
  from s w have "segs = [''foundations'', ''speech-recognition'']" by simp
  with s(2) have b: "buildHref childSpeech ?m = Some ''/topics/foundations/speech-recognition''"
    by simp
  have g: "getAllTopicSlugs ?cats = Some [[''foundations''], [''foundations'', ''speech-recognition'']]"
    by (simp add: getAllTopicSlugs_def w w0)
  have "rootIdOf ?m ''speech-recognition'' = Some ''foundations''"
    by (simp add: rootIdOf_def rootWalk_Some rootWalk_None categoryMap_def
        rootFoundations_def childSpeech_def)
  with r i have rr: "rootIdOf ?m ''speech-recognition'' = Some ''foundations''"
    "rootRounds ?m ''speech-recognition'' = Some (''foundations'', 1)"
    by simp_all
  show ?thesis by (intro conjI acyclic_example d chainResolved_example n w b g rr)
qed

lemma emptyId_fields:
  "id_cat emptyIdRoot = []" "parentId emptyIdRoot = None"
  "id_cat childOfEmptyId = ''intro''" "parentId childOfEmptyId = Some []"
  by (simp_all add: emptyIdRoot_def childOfEmptyId_def)

lemma emptyId_neq: "childOfEmptyId \<noteq> emptyIdRoot"
proof
  assume "childOfEmptyId = emptyIdRoot"
  then have "id_cat childOfEmptyId = id_cat emptyIdRoot" by simp
  then show False by (simp add: emptyId_fields)
qed

lemma emptyId_parentGraph:
  "parentGraph [emptyIdRoot, childOfEmptyId] = {(childOfEmptyId, emptyIdRoot)}"
  by (simp add: parentGraph_list emptyId_fields)

lemma emptyId_acyclic: "acyclic (parentGraph [emptyIdRoot, childOfEmptyId])"
  unfolding emptyId_parentGraph by (rule acyclic_edge [OF emptyId_neq])

lemma orphan_fields:
  "id_cat orphanTopic = ''orphan''" "parentId orphanTopic = Some ''missing''"
  "id_cat childOfOrphan = ''kid''" "parentId childOfOrphan = Some ''orphan''"
  by (simp_all add: orphanTopic_def childOfOrphan_def)

lemma orphan_neq: "childOfOrphan \<noteq> orphanTopic"
proof
  assume "childOfOrphan = orphanTopic"
  then have "id_cat childOfOrphan = id_cat orphanTopic" by simp
  then show False by (simp add: orphan_fields)
qed

lemma orphanPair_parentGraph:
  "parentGraph [orphanTopic, childOfOrphan] = {(childOfOrphan, orphanTopic)}"
  by (simp add: parentGraph_list orphan_fields)

text \<open>
  The count of the claim fails in two places. A child of the category with the
  empty-string id has one ancestor, and its walk follows no parent link: the test of
  \<open>parentId\<close> is a truthiness test, and the path is the slug of the child alone. And
  where the chain ends in a dangling reference, with unique and non-empty ids, the
  root-ancestor loop runs one round more than there are ancestors, the last one to the
  id that no category has.
\<close>

theorem parent_walk_counterexample:
  "acyclic (parentGraph [emptyIdRoot, childOfEmptyId])
   \<and> card (ancestors [emptyIdRoot, childOfEmptyId] childOfEmptyId) = 1
   \<and> parentOf (categoryMap [emptyIdRoot, childOfEmptyId]) childOfEmptyId = None
   \<and> walkSlugs (categoryMap [emptyIdRoot, childOfEmptyId]) (Some childOfEmptyId) [] = Some [''intro'']
   \<and> acyclic (parentGraph [orphanTopic, childOfOrphan])
   \<and> distinct (map id_cat [orphanTopic, childOfOrphan])
   \<and> [] \<notin> id_cat ` set [orphanTopic, childOfOrphan]
   \<and> card (ancestors [orphanTopic, childOfOrphan] childOfOrphan) = 1
   \<and> rootRounds (categoryMap [orphanTopic, childOfOrphan]) ''kid'' = Some (''missing'', 2)"
proof -
  have 1: "acyclic (parentGraph [emptyIdRoot, childOfEmptyId])"
    by (rule emptyId_acyclic)
  have "ancestors [emptyIdRoot, childOfEmptyId] childOfEmptyId = {emptyIdRoot}"
    unfolding ancestors_def emptyId_parentGraph trancl_edge by auto
  then have 2: "card (ancestors [emptyIdRoot, childOfEmptyId] childOfEmptyId) = 1" by simp
  have 3: "parentOf (categoryMap [emptyIdRoot, childOfEmptyId]) childOfEmptyId = None"
    by (simp add: parentOf_def emptyId_fields)
  then have 4: "walkSlugs (categoryMap [emptyIdRoot, childOfEmptyId]) (Some childOfEmptyId) []
      = Some [''intro'']"
    by (simp add: walkSlugs_Some walkSlugs_None childOfEmptyId_def)
  have 5: "acyclic (parentGraph [orphanTopic, childOfOrphan])"
    unfolding orphanPair_parentGraph by (rule acyclic_edge [OF orphan_neq])
  have 6: "distinct (map id_cat [orphanTopic, childOfOrphan])"
    "[] \<notin> id_cat ` set [orphanTopic, childOfOrphan]"
    by (simp_all add: orphan_fields)
  have "ancestors [orphanTopic, childOfOrphan] childOfOrphan = {orphanTopic}"
    unfolding ancestors_def orphanPair_parentGraph trancl_edge by auto
  then have 7: "card (ancestors [orphanTopic, childOfOrphan] childOfOrphan) = 1" by simp
  have 8: "rootRounds (categoryMap [orphanTopic, childOfOrphan]) ''kid'' = Some (''missing'', 2)"
    by (simp add: rootRounds_def rootWalkRounds_Some rootWalkRounds_None categoryMap_def
        orphanTopic_def childOfOrphan_def numeral_2_eq_2)
  show ?thesis by (intro conjI 1 2 3 4 5 6 7 8)
qed

section \<open>Top-down and bottom-up hrefs\<close>

lemma join_snoc: "xs \<noteq> [] \<Longrightarrow> join (xs @ [y]) sep = join xs sep @ sep @ y"
  by (induction xs sep rule: join.induct) auto

lemma join_Cons: "xs \<noteq> [] \<Longrightarrow> join (x # xs) sep = x @ sep @ join xs sep"
  by (cases xs) auto

lemma inTree_in_cats: "inTree cats c h \<Longrightarrow> c \<in> set cats"
  by (induction rule: inTree.induct) auto

text \<open>With unique and non-empty ids the parent walk retraces the top-down path.\<close>

lemma inTree_walk:
  assumes d: "distinct (map id_cat cats)" and ne: "[] \<notin> id_cat ` set cats"
  shows "inTree cats c h \<Longrightarrow>
    \<exists>segs. segs \<noteq> [] \<and> h = ''/topics/'' @ join segs ''/''
      \<and> (\<forall>acc. walkSlugs (categoryMap cats) (Some c) acc = Some (segs @ acc))"
proof (induction rule: inTree.induct)
  case (top c)
  then have "parentOf (categoryMap cats) c = None" by (simp add: parentOf_def)
  then have "\<forall>acc. walkSlugs (categoryMap cats) (Some c) acc = Some ([slug c] @ acc)"
    by (simp add: walkSlugs_Some walkSlugs_None)
  then show ?case by (intro exI [of _ "[slug c]"]) simp
next
  case (sub p base c)
  then obtain segs where s: "segs \<noteq> []" "base = ''/topics/'' @ join segs ''/''"
    "\<forall>acc. walkSlugs (categoryMap cats) (Some p) acc = Some (segs @ acc)"
    by blast
  from sub.hyps(1) have p: "p \<in> set cats" by (rule inTree_in_cats)
  with ne have "id_cat p \<noteq> []" by (metis image_eqI)
  moreover from d p have "categoryMap cats (id_cat p) = Some p" by (rule categoryMap_distinct)
  ultimately have "parentOf (categoryMap cats) c = Some p"
    using sub.hyps(3) by (simp add: parentOf_def)
  with s(3) have "\<forall>acc. walkSlugs (categoryMap cats) (Some c) acc = Some ((segs @ [slug c]) @ acc)"
    by (simp add: walkSlugs_Some)
  moreover from s have "base @ ''/'' @ slug c = ''/topics/'' @ join (segs @ [slug c]) ''/''"
    by (simp add: join_snoc)
  ultimately show ?case by (intro exI [of _ "segs @ [slug c]"]) simp
qed

lemma inTree_buildHref:
  assumes "distinct (map id_cat cats)" and "[] \<notin> id_cat ` set cats" and "inTree cats c h"
  shows "buildHref c (categoryMap cats) = Some h"
proof -
  from inTree_walk [OF assms] obtain segs where
    "h = ''/topics/'' @ join segs ''/''"
    "\<forall>acc. walkSlugs (categoryMap cats) (Some c) acc = Some (segs @ acc)"
    by blast
  then show ?thesis by (simp add: buildHref_def)
qed

text \<open>A slug path that resolves leads to a category of the tree, with the path as href.\<close>

lemma resolveSlugs_inTree:
  assumes "resolveSlugs cats pid path = Some (Some i)" and "path \<noteq> []"
    and "(pid = None \<and> base = ''/topics'') \<or> (\<exists>p. inTree cats p base \<and> pid = Some (id_cat p))"
  shows "\<exists>c. id_cat c = i \<and> inTree cats c (base @ ''/'' @ join path ''/'')"
  using assms
proof (induction path arbitrary: pid base)
  case Nil
  then show ?case by simp
next
  case (Cons s rest)
  note IH = Cons.IH
  from Cons.prems(1) obtain found where
    f: "find (\<lambda>c. slug c = s) (childrenOf cats pid) = Some found" and
    r: "resolveSlugs cats (Some (id_cat found)) rest = Some (Some i)"
    by (auto split: option.splits)
  from f have fc: "found \<in> set cats" "parentId found = pid" "slug found = s"
    by (auto dest: find_children_SomeD)
  have t: "inTree cats found (base @ ''/'' @ s)"
  proof (cases pid)
    case None
    with Cons.prems(3) have "base = ''/topics''" by auto
    with inTree.top [of found cats] fc None show ?thesis by simp
  next
    case (Some j)
    with Cons.prems(3) obtain p where "inTree cats p base" "pid = Some (id_cat p)" by auto
    with inTree.sub [of cats p base found] fc show ?thesis by simp
  qed
  show ?case
  proof (cases rest)
    case Nil
    with r t show ?thesis by auto
  next
    case (Cons s' rest')
    then have ne: "rest \<noteq> []" by simp
    from t have "(Some (id_cat found) = None \<and> base @ ''/'' @ s = ''/topics'')
        \<or> (\<exists>p. inTree cats p (base @ ''/'' @ s) \<and> Some (id_cat found) = Some (id_cat p))"
      by blast
    from IH [OF r ne this] obtain c where
      "id_cat c = i" "inTree cats c ((base @ ''/'' @ s) @ ''/'' @ join rest ''/'')"
      by blast
    with ne show ?thesis by (auto simp: join_Cons)
  qed
qed

text \<open>
  C2 (as amended). For a category list whose ids are unique and not empty, and a slug
  path that \<open>getTopicMetadata\<close> resolves to a category, \<open>buildHref\<close> of that category
  returns \<open>/topics/\<close> followed by the segments of the path joined by \<open>/\<close>.
\<close>

theorem resolve_then_buildHref:
  assumes "distinct (map id_cat cats)" and "[] \<notin> id_cat ` set cats"
    and "getTopicMetadata cats slugPath = Some c"
  shows "buildHref c (categoryMap cats) = Some (''/topics/'' @ join slugPath ''/'')"
proof -
  from assms(3) obtain i where
    r: "resolveSlugs cats None slugPath = Some (Some i)" and m: "categoryMap cats i = Some c"
    by (auto simp: getTopicMetadata_def findTopicBySlugPath_def split: option.splits if_splits)
  from r have ne: "slugPath \<noteq> []" by auto
  from resolveSlugs_inTree [OF r ne, of "''/topics''"] obtain c' where
    c': "id_cat c' = i" "inTree cats c' (''/topics'' @ ''/'' @ join slugPath ''/'')"
    by blast
  from c'(2) have "c' \<in> set cats" by (rule inTree_in_cats)
  with categoryMap_distinct [OF assms(1), of c'] c'(1) m have "c' = c" by simp
  with c'(2) inTree_buildHref [OF assms(1,2)] show ?thesis by simp
qed

lemma example_ids: "distinct (map id_cat [rootFoundations, childSpeech])"
  "[] \<notin> id_cat ` set [rootFoundations, childSpeech]"
  by (simp_all add: rootFoundations_def childSpeech_def)

theorem resolve_then_buildHref_witness:
  "distinct (map id_cat [rootFoundations, childSpeech])
   \<and> [] \<notin> id_cat ` set [rootFoundations, childSpeech]
   \<and> getTopicMetadata [rootFoundations, childSpeech] [''foundations'', ''speech-recognition'']
       = Some childSpeech
   \<and> buildHref childSpeech (categoryMap [rootFoundations, childSpeech])
       = Some ''/topics/foundations/speech-recognition''"
proof -
  have g: "getTopicMetadata [rootFoundations, childSpeech] [''foundations'', ''speech-recognition'']
       = Some childSpeech"
    by (simp add: getTopicMetadata_def findTopicBySlugPath_def childrenOf_filter categoryMap_def
        rootFoundations_def childSpeech_def)
  from resolve_then_buildHref [OF example_ids g] example_ids g show ?thesis by simp
qed

text \<open>
  The claim as stated asks only for an acyclic parent graph and unique sibling slugs.
  Both hold below, and so do unique ids and the absence of dangling references; but the
  root has the empty string as id, which the path resolution follows as a key of the
  children map, while the parent walk of \<open>buildHref\<close> takes it for no parent.
\<close>

lemma emptyId_children:
  "childrenOf [emptyIdRoot, childOfEmptyId] pid =
     (if pid = None then [emptyIdRoot] else if pid = Some [] then [childOfEmptyId] else [])"
  by (auto simp: childrenOf_filter emptyIdRoot_def childOfEmptyId_def)

theorem resolve_then_buildHref_counterexample:
  "acyclic (parentGraph [emptyIdRoot, childOfEmptyId])
   \<and> siblingSlugsUnique [emptyIdRoot, childOfEmptyId]
   \<and> distinct (map id_cat [emptyIdRoot, childOfEmptyId])
   \<and> getTopicMetadata [emptyIdRoot, childOfEmptyId] [''basics'', ''intro''] = Some childOfEmptyId
   \<and> buildHref childOfEmptyId (categoryMap [emptyIdRoot, childOfEmptyId]) = Some ''/topics/intro''
   \<and> ''/topics/intro'' \<noteq> ''/topics/'' @ join [''basics'', ''intro''] ''/''"
proof -
  have 1: "siblingSlugsUnique [emptyIdRoot, childOfEmptyId]"
    by (simp add: siblingSlugsUnique_def emptyId_children)
  have 2: "distinct (map id_cat [emptyIdRoot, childOfEmptyId])"
    by (simp add: emptyIdRoot_def childOfEmptyId_def)
  have 3: "getTopicMetadata [emptyIdRoot, childOfEmptyId] [''basics'', ''intro''] = Some childOfEmptyId"
    by (simp add: getTopicMetadata_def findTopicBySlugPath_def emptyId_children categoryMap_def)
      (simp add: emptyIdRoot_def childOfEmptyId_def)
  have 4: "buildHref childOfEmptyId (categoryMap [emptyIdRoot, childOfEmptyId]) = Some ''/topics/intro''"
    by (simp add: buildHref_def walkSlugs_Some walkSlugs_None parentOf_def childOfEmptyId_def)
  from emptyId_acyclic 1 2 3 4 show ?thesis by simp
qed

section \<open>The navigation tree and the hrefs of its nodes\<close>

lemma allNodes_self: "n \<in> set (allNodes n)"
  by (cases n) simp

lemma allNodes_children:
  "n \<in> set (allNodes r) \<Longrightarrow> k \<in> set (nav_children n) \<Longrightarrow> k \<in> set (allNodes r)"
proof (induction r arbitrary: n k)
  case (NavItem t h kids)
  show ?case
  proof (cases "n = NavItem t h kids")
    case True
    with NavItem.prems(2) have "k \<in> set kids" by simp
    then show ?thesis using allNodes_self [of k] by auto
  next
    case False
    with NavItem.prems(1) obtain r' where r': "r' \<in> set kids" "n \<in> set (allNodes r')" by auto
    from NavItem.IH [OF r'(1) r'(2) NavItem.prems(2)] r'(1) show ?thesis by auto
  qed
qed

lemma treeNodes_children:
  "n \<in> set (treeNodes tree) \<Longrightarrow> k \<in> set (nav_children n) \<Longrightarrow> k \<in> set (treeNodes tree)"
  by (auto simp: treeNodes_def dest: allNodes_children)

lemma treeNodes_top: "n \<in> set tree \<Longrightarrow> n \<in> set (treeNodes tree)"
  using allNodes_self by (auto simp: treeNodes_def)

lemma buildTree_item_of_child:
  assumes "buildTree cats pid base = Some items" and "c \<in> set cats" and "parentId c = pid"
  shows "\<exists>n\<in>set items. nav_title n = title c \<and> nav_href n = base @ ''/'' @ slug c
           \<and> buildTree cats (Some (id_cat c)) (nav_href n) = Some (nav_children n)"
proof -
  let ?cs = "sort_js byOrder (childrenOf cats pid)"
  from assms(1) have l: "list_all2 (\<lambda>c it. nav_title it = title c \<and> nav_href it = base @ ''/'' @ slug c
        \<and> buildTree cats (Some (id_cat c)) (nav_href it) = Some (nav_children it)) ?cs items"
    unfolding buildTree_def [of cats pid base] by (rule buildItems_list_all2)
  from assms(2,3) have "c \<in> set ?cs" by (simp add: set_sort_js childrenOf_filter)
  then obtain i where i: "i < length ?cs" "?cs ! i = c" by (auto simp: in_set_conv_nth)
  with l have "i < length items" by (simp add: list_all2_lengthD)
  moreover from l i have "nav_title (items ! i) = title c \<and> nav_href (items ! i) = base @ ''/'' @ slug c
           \<and> buildTree cats (Some (id_cat c)) (nav_href (items ! i)) = Some (nav_children (items ! i))"
    by (auto dest: list_all2_nthD)
  ultimately show ?thesis by (intro bexI [of _ "items ! i"]) auto
qed

lemma buildTree_child_of_item:
  assumes "buildTree cats pid base = Some items" and "n \<in> set items"
  shows "\<exists>c\<in>set cats. parentId c = pid \<and> nav_title n = title c \<and> nav_href n = base @ ''/'' @ slug c
           \<and> buildTree cats (Some (id_cat c)) (nav_href n) = Some (nav_children n)"
proof -
  let ?cs = "sort_js byOrder (childrenOf cats pid)"
  from assms(1) have l: "list_all2 (\<lambda>c it. nav_title it = title c \<and> nav_href it = base @ ''/'' @ slug c
        \<and> buildTree cats (Some (id_cat c)) (nav_href it) = Some (nav_children it)) ?cs items"
    unfolding buildTree_def [of cats pid base] by (rule buildItems_list_all2)
  from assms(2) obtain i where i: "i < length items" "items ! i = n" by (auto simp: in_set_conv_nth)
  with l have il: "i < length ?cs" by (simp add: list_all2_lengthD)
  then have "?cs ! i \<in> set ?cs" by simp
  then have c: "?cs ! i \<in> set cats" "parentId (?cs ! i) = pid"
    by (simp_all add: set_sort_js childrenOf_filter)
  from l i il have "nav_title n = title (?cs ! i) \<and> nav_href n = base @ ''/'' @ slug (?cs ! i)
           \<and> buildTree cats (Some (id_cat (?cs ! i))) (nav_href n) = Some (nav_children n)"
    by (auto dest: list_all2_nthD2)
  with c show ?thesis by (intro bexI [of _ "?cs ! i"]) auto
qed

lemma inTree_has_node:
  assumes "getNavigationTree cats = Some tree"
  shows "inTree cats c h \<Longrightarrow>
    \<exists>n\<in>set (treeNodes tree). nav_title n = title c \<and> nav_href n = h
       \<and> buildTree cats (Some (id_cat c)) h = Some (nav_children n)"
proof (induction rule: inTree.induct)
  case (top c)
  from assms have "buildTree cats None ''/topics'' = Some tree" by (simp add: getNavigationTree_def)
  from buildTree_item_of_child [OF this top] show ?case
    by (auto dest: treeNodes_top)
next
  case (sub p base c)
  then obtain n where n: "n \<in> set (treeNodes tree)" "nav_href n = base"
    "buildTree cats (Some (id_cat p)) base = Some (nav_children n)"
    by blast
  from buildTree_item_of_child [OF n(3) sub.hyps(2,3)] obtain k where
    "k \<in> set (nav_children n)" "nav_title k = title c" "nav_href k = base @ ''/'' @ slug c"
    "buildTree cats (Some (id_cat c)) (nav_href k) = Some (nav_children k)"
    by blast
  with n(1) show ?case by (auto dest: treeNodes_children)
qed

lemma node_inTree_aux:
  "n \<in> set (allNodes r) \<Longrightarrow> inTree cats c (nav_href r) \<Longrightarrow> nav_title r = title c
     \<Longrightarrow> buildTree cats (Some (id_cat c)) (nav_href r) = Some (nav_children r)
     \<Longrightarrow> \<exists>c'. inTree cats c' (nav_href n) \<and> nav_title n = title c'"
proof (induction r arbitrary: n c)
  case (NavItem t h kids)
  show ?case
  proof (cases "n = NavItem t h kids")
    case True
    with NavItem.prems show ?thesis by auto
  next
    case False
    with NavItem.prems(1) obtain k where k: "k \<in> set kids" "n \<in> set (allNodes k)" by auto
    from NavItem.prems(4) have "buildTree cats (Some (id_cat c)) h = Some kids" by simp
    from buildTree_child_of_item [OF this k(1)] obtain d where d:
      "d \<in> set cats" "parentId d = Some (id_cat c)" "nav_title k = title d"
      "nav_href k = h @ ''/'' @ slug d"
      "buildTree cats (Some (id_cat d)) (nav_href k) = Some (nav_children k)"
      by blast
    from NavItem.prems(2) have "inTree cats c h" by simp
    from inTree.sub [OF this d(1,2)] have "inTree cats d (h @ ''/'' @ slug d)" .
    with d(4) have "inTree cats d (nav_href k)" by simp
    from NavItem.IH [OF k(1) k(2) this d(3) d(5)] show ?thesis .
  qed
qed

lemma node_inTree:
  assumes "getNavigationTree cats = Some tree" and "n \<in> set (treeNodes tree)"
  shows "\<exists>c. inTree cats c (nav_href n) \<and> nav_title n = title c"
proof -
  from assms(2) obtain r where r: "r \<in> set tree" "n \<in> set (allNodes r)"
    by (auto simp: treeNodes_def)
  from assms(1) have "buildTree cats None ''/topics'' = Some tree" by (simp add: getNavigationTree_def)
  from buildTree_child_of_item [OF this r(1)] obtain c where c:
    "c \<in> set cats" "parentId c = None" "nav_title r = title c"
    "nav_href r = ''/topics'' @ ''/'' @ slug c"
    "buildTree cats (Some (id_cat c)) (nav_href r) = Some (nav_children r)"
    by blast
  from c(1,2) have "inTree cats c (''/topics'' @ ''/'' @ slug c)" by (rule inTree.top)
  with c(4) have "inTree cats c (nav_href r)" by simp
  from node_inTree_aux [OF r(2) this c(3) c(5)] show ?thesis .
qed

text \<open>
  C7 (as amended). Let the ids of the category list be unique and not empty. Then
  \<open>getNavigationTree\<close> returns a tree; every node of the tree belongs to a category
  reachable in the tree and carries its top-down href; every category reachable in the
  tree has such a node; and for each of them the top-down href is the href that
  \<open>buildHref\<close> computes bottom-up.
\<close>

theorem nav_href_is_buildHref:
  assumes "distinct (map id_cat cats)" and "[] \<notin> id_cat ` set cats"
  shows "\<exists>tree. getNavigationTree cats = Some tree
       \<and> (\<forall>n\<in>set (treeNodes tree). \<exists>c. inTree cats c (nav_href n) \<and> nav_title n = title c
            \<and> buildHref c (categoryMap cats) = Some (nav_href n))
       \<and> (\<forall>c h. inTree cats c h \<longrightarrow>
            (\<exists>n\<in>set (treeNodes tree). nav_title n = title c \<and> nav_href n = h)
            \<and> buildHref c (categoryMap cats) = Some h)"
proof -
  from getNavigationTree_returns [OF assms(1)] obtain tree where
    tree: "getNavigationTree cats = Some tree" by blast
  have "(\<forall>n\<in>set (treeNodes tree). \<exists>c. inTree cats c (nav_href n) \<and> nav_title n = title c
            \<and> buildHref c (categoryMap cats) = Some (nav_href n))
       \<and> (\<forall>c h. inTree cats c h \<longrightarrow>
            (\<exists>n\<in>set (treeNodes tree). nav_title n = title c \<and> nav_href n = h)
            \<and> buildHref c (categoryMap cats) = Some h)"
  proof (intro conjI ballI allI impI)
  fix n assume "n \<in> set (treeNodes tree)"
  from node_inTree [OF tree this] obtain c where
    c: "inTree cats c (nav_href n)" "nav_title n = title c" by blast
  with inTree_buildHref [OF assms(1,2) c(1)]
  show "\<exists>c. inTree cats c (nav_href n) \<and> nav_title n = title c
            \<and> buildHref c (categoryMap cats) = Some (nav_href n)"
    by blast
next
  fix c h assume "inTree cats c h"
  from inTree_has_node [OF tree this]
  show "\<exists>n\<in>set (treeNodes tree). nav_title n = title c \<and> nav_href n = h" by blast
next
  fix c h assume "inTree cats c h"
  with assms(1,2) show "buildHref c (categoryMap cats) = Some h" by (rule inTree_buildHref)
  qed
  with tree show ?thesis by blast
qed

lemma example_tree:
  "getNavigationTree [rootFoundations, childSpeech] =
     Some [NavItem ''Foundations'' ''/topics/foundations''
             [NavItem ''Speech Recognition'' ''/topics/foundations/speech-recognition'' []]]"
  by (simp add: getNavigationTree_def buildTree_def buildItems_Nil buildItems_Cons
      childrenOf_filter byOrder_def rootFoundations_def childSpeech_def)

lemma example_inTree:
  "inTree [rootFoundations, childSpeech] childSpeech ''/topics/foundations/speech-recognition''"
proof -
  have "inTree [rootFoundations, childSpeech] rootFoundations (''/topics'' @ ''/'' @ slug rootFoundations)"
    by (rule inTree.top) (simp_all add: rootFoundations_def)
  then have "inTree [rootFoundations, childSpeech] childSpeech
      ((''/topics'' @ ''/'' @ slug rootFoundations) @ ''/'' @ slug childSpeech)"
    by (rule inTree.sub) (simp_all add: rootFoundations_def childSpeech_def)
  then show ?thesis by (simp add: rootFoundations_def childSpeech_def)
qed

theorem nav_href_is_buildHref_witness:
  "distinct (map id_cat [rootFoundations, childSpeech])
   \<and> [] \<notin> id_cat ` set [rootFoundations, childSpeech]
   \<and> getNavigationTree [rootFoundations, childSpeech] =
       Some [NavItem ''Foundations'' ''/topics/foundations''
               [NavItem ''Speech Recognition'' ''/topics/foundations/speech-recognition'' []]]
   \<and> inTree [rootFoundations, childSpeech] childSpeech ''/topics/foundations/speech-recognition''
   \<and> buildHref childSpeech (categoryMap [rootFoundations, childSpeech])
       = Some ''/topics/foundations/speech-recognition''"
  using nav_href_is_buildHref [OF example_ids] example_ids example_tree example_inTree
  by auto

text \<open>
  Without the condition on the ids the claim fails: below, the ids are unique and no
  reference dangles, the child of the root with the empty id is in the tree with the
  top-down href \<open>/topics/basics/intro\<close>, and \<open>buildHref\<close> gives \<open>/topics/intro\<close>.
\<close>

theorem nav_href_is_buildHref_counterexample:
  "distinct (map id_cat [emptyIdRoot, childOfEmptyId])
   \<and> getNavigationTree [emptyIdRoot, childOfEmptyId] =
       Some [NavItem ''Basics'' ''/topics/basics''
               [NavItem ''Introduction'' ''/topics/basics/intro'' []]]
   \<and> inTree [emptyIdRoot, childOfEmptyId] childOfEmptyId ''/topics/basics/intro''
   \<and> buildHref childOfEmptyId (categoryMap [emptyIdRoot, childOfEmptyId]) = Some ''/topics/intro''"
proof -
  have 1: "distinct (map id_cat [emptyIdRoot, childOfEmptyId])"
    by (simp add: emptyIdRoot_def childOfEmptyId_def)
  have 2: "getNavigationTree [emptyIdRoot, childOfEmptyId] =
       Some [NavItem ''Basics'' ''/topics/basics''
               [NavItem ''Introduction'' ''/topics/basics/intro'' []]]"
    by (simp add: getNavigationTree_def buildTree_def buildItems_Nil buildItems_Cons
        childrenOf_filter byOrder_def emptyIdRoot_def childOfEmptyId_def)
  have "inTree [emptyIdRoot, childOfEmptyId] emptyIdRoot (''/topics'' @ ''/'' @ slug emptyIdRoot)"
    by (rule inTree.top) (simp_all add: emptyIdRoot_def)
  then have "inTree [emptyIdRoot, childOfEmptyId] childOfEmptyId
      ((''/topics'' @ ''/'' @ slug emptyIdRoot) @ ''/'' @ slug childOfEmptyId)"
    by (rule inTree.sub) (simp_all add: emptyIdRoot_def childOfEmptyId_def)
  then have 3: "inTree [emptyIdRoot, childOfEmptyId] childOfEmptyId ''/topics/basics/intro''"
    by (simp add: emptyIdRoot_def childOfEmptyId_def)
  have 4: "buildHref childOfEmptyId (categoryMap [emptyIdRoot, childOfEmptyId]) = Some ''/topics/intro''"
    by (simp add: buildHref_def walkSlugs_Some walkSlugs_None parentOf_def childOfEmptyId_def)
  from 1 2 3 4 show ?thesis by simp
qed

section \<open>Dangling parent references\<close>

lemma dangling_parentOf:
  assumes "parentId c = Some p" and "p \<notin> id_cat ` set cats"
  shows "parentOf (categoryMap cats) c = None"
  using assms by (simp add: parentOf_def categoryMap_None_iff)

text \<open>
  C4 (as amended). Let the \<open>parentId\<close> of a category refer to an id that no category of
  the list has. The parent walk from that category stops there, whatever segments it has
  collected below: the slug of the category becomes the first segment. \<open>buildHref\<close>
  returns \<open>/topics/\<close> and the slug, the same as for the category with \<open>parentId\<close> null.
  When the parent graph of the list is acyclic, \<open>getAllTopicSlugs\<close> returns, with the
  one-slug path at the position of the category, and \<open>getNavigationTree\<close> returns;
  \<open>getNavigationTree\<close> also returns whenever the ids are unique. The category is not
  reachable in the tree.
\<close>

theorem dangling_parent_is_root:
  assumes "parentId c = Some p" and "p \<notin> id_cat ` set cats"
  shows "(\<forall>acc. walkSlugs (categoryMap cats) (Some c) acc = Some (slug c # acc))
       \<and> buildHref c (categoryMap cats) = Some (''/topics/'' @ slug c)
       \<and> buildHref c (categoryMap cats) = buildHref (c\<lparr>parentId := None\<rparr>) (categoryMap cats)
       \<and> (acyclic (parentGraph cats) \<longrightarrow>
            (\<exists>paths. getAllTopicSlugs cats = Some paths \<and> length paths = length cats
               \<and> (\<forall>i<length cats. cats ! i = c \<longrightarrow> paths ! i = [slug c]))
            \<and> (\<exists>tree. getNavigationTree cats = Some tree))
       \<and> (distinct (map id_cat cats) \<longrightarrow> (\<exists>tree. getNavigationTree cats = Some tree))
       \<and> (\<forall>h. \<not> inTree cats c h)"
proof -
  let ?m = "categoryMap cats"
  from assms have po: "parentOf ?m c = None" by (rule dangling_parentOf)
  then have 1: "\<forall>acc. walkSlugs ?m (Some c) acc = Some (slug c # acc)"
    by (simp add: walkSlugs_Some walkSlugs_None)
  then have 2: "buildHref c ?m = Some (''/topics/'' @ slug c)"
    by (simp add: buildHref_def)
  have "parentOf ?m (c\<lparr>parentId := None\<rparr>) = None" by (simp add: parentOf_def)
  then have "buildHref (c\<lparr>parentId := None\<rparr>) ?m = Some (''/topics/'' @ slug c)"
    by (simp add: buildHref_def walkSlugs_Some walkSlugs_None)
  with 2 have 3: "buildHref c ?m = buildHref (c\<lparr>parentId := None\<rparr>) ?m" by simp
  have 4: "(\<exists>paths. getAllTopicSlugs cats = Some paths \<and> length paths = length cats
               \<and> (\<forall>i<length cats. cats ! i = c \<longrightarrow> paths ! i = [slug c]))
            \<and> (\<exists>tree. getNavigationTree cats = Some tree)"
    if g: "acyclic (parentGraph cats)"
  proof -
    from g have ac: "acyclic (parentRel cats)" by (rule acyclic_parentRel)
    have "\<exists>segs. walkSlugs ?m (Some d) [] = Some segs" if "d \<in> set cats" for d
      using walk_acyclic [OF ac that] by (metis append_Nil2)
    from slugPaths_total [of cats ?m, OF this] obtain paths where
      p: "slugPaths ?m cats = Some paths" "length paths = length cats"
      by blast
    have "paths ! i = [slug c]" if "i < length cats" "cats ! i = c" for i
      using slugPaths_nth [OF p(1) that(1)] that(2) 1 by simp
    with p have "\<exists>paths. getAllTopicSlugs cats = Some paths \<and> length paths = length cats
               \<and> (\<forall>i<length cats. cats ! i = c \<longrightarrow> paths ! i = [slug c])"
      by (simp add: getAllTopicSlugs_def)
    with getNavigationTree_acyclic [OF g] show ?thesis by blast
  qed
  have 5: "\<not> inTree cats c h" for h
  proof
    assume "inTree cats c h"
    then show False
    proof (cases rule: inTree.cases)
      case (top)
      with assms(1) show False by simp
    next
      case (sub q base)
      from sub(2) have "q \<in> set cats" by (rule inTree_in_cats)
      with sub(4) assms show False by auto
    qed
  qed
  from 4 have 4: "acyclic (parentGraph cats) \<longrightarrow>
            (\<exists>paths. getAllTopicSlugs cats = Some paths \<and> length paths = length cats
               \<and> (\<forall>i<length cats. cats ! i = c \<longrightarrow> paths ! i = [slug c]))
            \<and> (\<exists>tree. getNavigationTree cats = Some tree)"
    by (rule impI)
  from 5 have 5: "\<forall>h. \<not> inTree cats c h" by (rule allI)
  have 6: "distinct (map id_cat cats) \<longrightarrow> (\<exists>tree. getNavigationTree cats = Some tree)"
    by (rule impI) (rule getNavigationTree_returns)
  show ?thesis by (intro conjI 1 2 3 4 6 5)
qed

lemma orphan_parentGraph:
  "parentGraph [rootFoundations, orphanTopic, childOfOrphan] = {(childOfOrphan, orphanTopic)}"
  by (simp add: parentGraph_list orphan_fields example_fields)

lemma orphan_acyclic: "acyclic (parentGraph [rootFoundations, orphanTopic, childOfOrphan])"
  unfolding orphan_parentGraph by (rule acyclic_edge [OF orphan_neq])

theorem dangling_parent_is_root_witness:
  "parentId orphanTopic = Some ''missing''
   \<and> ''missing'' \<notin> id_cat ` set [rootFoundations, orphanTopic, childOfOrphan]
   \<and> acyclic (parentGraph [rootFoundations, orphanTopic, childOfOrphan])
   \<and> buildHref orphanTopic (categoryMap [rootFoundations, orphanTopic, childOfOrphan])
       = Some ''/topics/lost''
   \<and> buildHref childOfOrphan (categoryMap [rootFoundations, orphanTopic, childOfOrphan])
       = Some ''/topics/lost/kid''
   \<and> getAllTopicSlugs [rootFoundations, orphanTopic, childOfOrphan]
       = Some [[''foundations''], [''lost''], [''lost'', ''kid'']]
   \<and> getNavigationTree [rootFoundations, orphanTopic, childOfOrphan]
       = Some [NavItem ''Foundations'' ''/topics/foundations'' []]"
proof -
  let ?cats = "[rootFoundations, orphanTopic, childOfOrphan]"
  have a: "parentId orphanTopic = Some ''missing''" by (simp add: orphanTopic_def)
  have b: "''missing'' \<notin> id_cat ` set ?cats"
    by (simp add: rootFoundations_def orphanTopic_def childOfOrphan_def)
  note t = dangling_parent_is_root [OF a b]
  from t have w: "\<forall>acc. walkSlugs (categoryMap ?cats) (Some orphanTopic) acc = Some (slug orphanTopic # acc)"
    by (rule conjunct1)
  from t [THEN conjunct2]
  have h: "buildHref orphanTopic (categoryMap ?cats) = Some (''/topics/'' @ slug orphanTopic)"
    by (rule conjunct1)
  from h have 1: "buildHref orphanTopic (categoryMap ?cats) = Some ''/topics/lost''"
    by (simp add: orphanTopic_def)
  have po: "parentOf (categoryMap ?cats) childOfOrphan = Some orphanTopic"
    by (simp add: parentOf_def categoryMap_def rootFoundations_def orphanTopic_def childOfOrphan_def)
  from w po have wk: "walkSlugs (categoryMap ?cats) (Some childOfOrphan) [] = Some [''lost'', ''kid'']"
    by (simp add: walkSlugs_Some orphanTopic_def childOfOrphan_def)
  then have 2: "buildHref childOfOrphan (categoryMap ?cats) = Some ''/topics/lost/kid''"
    by (simp add: buildHref_def)
  have wr: "walkSlugs (categoryMap ?cats) (Some rootFoundations) [] = Some [''foundations'']"
    by (simp add: walkSlugs_Some walkSlugs_None parentOf_def rootFoundations_def)
  from w have wo: "walkSlugs (categoryMap ?cats) (Some orphanTopic) [] = Some [''lost'']"
    by (simp add: orphanTopic_def)
  have 3: "getAllTopicSlugs ?cats = Some [[''foundations''], [''lost''], [''lost'', ''kid'']]"
    by (simp add: getAllTopicSlugs_def wr wo wk)
  have 4: "getNavigationTree ?cats = Some [NavItem ''Foundations'' ''/topics/foundations'' []]"
    by (simp add: getNavigationTree_def buildTree_def buildItems_Nil buildItems_Cons
        childrenOf_filter byOrder_def rootFoundations_def orphanTopic_def childOfOrphan_def)
  show ?thesis by (intro conjI a b orphan_acyclic 1 2 3 4)
qed

lemma walkSlugs_loop:
  assumes "parentOf m c = Some c"
  shows "walkSlugs m (Some c) acc = None"
proof (rule ccontr)
  assume "walkSlugs m (Some c) acc \<noteq> None"
  then obtain y where y: "walkSlugs m (Some c) acc = Some y" by auto
  have "\<not> (m = m \<and> Some c = Some c)"
    by (rule walkSlugs.raw_induct [where P = "\<lambda>m' cur a z. \<not> (m' = m \<and> cur = Some c)", OF _ y])
      (auto simp: assms, blast)
  then show False by simp
qed

lemma selfParent_loop:
  "parentOf (categoryMap [selfParent, orphanTopic]) selfParent = Some selfParent"
  by (simp add: parentOf_def categoryMap_def selfParent_def orphanTopic_def)

lemma buildItems_loop:
  assumes "sort_js byOrder (childrenOf cats (Some (id_cat c))) = [c]"
  shows "buildItems cats base [c] = None"
proof (rule ccontr)
  assume "buildItems cats base [c] \<noteq> None"
  then obtain y where y: "buildItems cats base [c] = Some y" by auto
  have "\<not> (cats = cats \<and> [c] = [c])"
  proof (rule buildItems.raw_induct
      [where P = "\<lambda>cs b ch y. \<not> (cs = cats \<and> ch = [c])", OF _ y])
    fix f and cs :: "Category list" and b :: string and ch :: "Category list"
      and z :: "NavItem list"
    assume IH: "\<And>cs b ch y. f cs b ch = Some y \<Longrightarrow> \<not> (cs = cats \<and> ch = [c])"
      and st: "(case ch of [] \<Rightarrow> Some []
        | cat # rest \<Rightarrow>
            Option.bind
              (f cs (b @ ''/'' @ slug cat) (sort_js byOrder (childrenOf cs (Some (id_cat cat)))))
              (\<lambda>kids. Option.bind (f cs b rest)
                 (\<lambda>items. Some (NavItem (title cat) (b @ ''/'' @ slug cat) kids # items)))) = Some z"
    show "\<not> (cs = cats \<and> ch = [c])"
    proof
      assume "cs = cats \<and> ch = [c]"
      with st assms obtain kids where "f cats (b @ ''/'' @ slug c) [c] = Some kids"
        by (auto simp: bind_eq_Some_conv)
      with IH show False by blast
    qed
  qed
  then show False by simp
qed

lemma sameId_children:
  "sort_js byOrder (childrenOf [catA, sameIdChild, orphanTopic] (Some (id_cat sameIdChild)))
     = [sameIdChild]"
  "sort_js byOrder (childrenOf [catA, sameIdChild, orphanTopic] None) = [catA]"
  "id_cat catA = id_cat sameIdChild"
  by (simp_all add: childrenOf_filter catA_def sameIdChild_def orphanTopic_def)

lemma sameId_tree: "getNavigationTree [catA, sameIdChild, orphanTopic] = None"
proof -
  let ?cats = "[catA, sameIdChild, orphanTopic]"
  have "buildItems ?cats (''/topics'' @ ''/'' @ slug catA) [sameIdChild] = None"
    by (rule buildItems_loop [OF sameId_children(1)])
  then have k: "buildTree ?cats (Some (id_cat catA)) (''/topics'' @ ''/'' @ slug catA) = None"
    by (simp only: buildTree_def sameId_children)
  have "getNavigationTree ?cats = buildItems ?cats ''/topics'' [catA]"
    by (simp only: getNavigationTree_def buildTree_def sameId_children)
  also have "\<dots> = None"
    by (subst buildItems_Cons) (simp only: k Option.bind.simps)
  finally show ?thesis .
qed

text \<open>
  Without the acyclic parent graph the claim fails. In a list that holds the dangling
  category beside a category that is its own parent, the walk from the latter never
  ends, and \<open>getAllTopicSlugs\<close> does not return. In a list that holds it beside a root
  category and a child that has the id of that root, the child is stored under its own
  id, \<open>buildTree\<close> enters it again and again, and \<open>getNavigationTree\<close> does not return.
\<close>

theorem dangling_parent_counterexample:
  "parentId orphanTopic = Some ''missing''
   \<and> orphanTopic \<in> set [selfParent, orphanTopic]
   \<and> ''missing'' \<notin> id_cat ` set [selfParent, orphanTopic]
   \<and> getAllTopicSlugs [selfParent, orphanTopic] = None
   \<and> orphanTopic \<in> set [catA, sameIdChild, orphanTopic]
   \<and> ''missing'' \<notin> id_cat ` set [catA, sameIdChild, orphanTopic]
   \<and> getNavigationTree [catA, sameIdChild, orphanTopic] = None"
proof -
  have 1: "parentId orphanTopic = Some ''missing''" by (simp add: orphanTopic_def)
  have 2: "orphanTopic \<in> set [selfParent, orphanTopic]" by simp
  have 3: "''missing'' \<notin> id_cat ` set [selfParent, orphanTopic]"
    by (simp add: selfParent_def orphanTopic_def)
  have "walkSlugs (categoryMap [selfParent, orphanTopic]) (Some selfParent) [] = None"
    by (rule walkSlugs_loop [OF selfParent_loop])
  then have 4: "getAllTopicSlugs [selfParent, orphanTopic] = None"
    by (simp add: getAllTopicSlugs_def)
  have 5: "orphanTopic \<in> set [catA, sameIdChild, orphanTopic]" by simp
  have 6: "''missing'' \<notin> id_cat ` set [catA, sameIdChild, orphanTopic]"
    by (simp add: catA_def sameIdChild_def orphanTopic_def)
  show ?thesis by (intro conjI 1 2 3 4 5 6 sameId_tree)
qed

section \<open>Previous and next topic\<close>

lemma findIndexFrom_none: "(\<forall>x\<in>set xs. \<not> p x) \<Longrightarrow> findIndexFrom k p xs = -1"
  by (induction xs arbitrary: k) auto

lemma findIndexFrom_first:
  "i < length xs \<Longrightarrow> p (xs ! i) \<Longrightarrow> (\<forall>j<i. \<not> p (xs ! j)) \<Longrightarrow> findIndexFrom k p xs = k + int i"
proof (induction xs arbitrary: i k)
  case Nil
  then show ?case by simp
next
  case (Cons x xs)
  show ?case
  proof (cases i)
    case 0
    with Cons.prems show ?thesis by simp
  next
    case (Suc i')
    with Cons.prems have "\<not> p x" by auto
    moreover from Suc Cons.prems have "i' < length xs" "p (xs ! i')" "\<forall>j<i'. \<not> p (xs ! j)"
      by auto
    from Cons.IH [OF this, of "k + 1"] have "findIndexFrom (k + 1) p xs = k + 1 + int i'" .
    ultimately show ?thesis using Suc by simp
  qed
qed

lemma prevNextIn_notfound:
  assumes "\<forall>s\<in>set allSlugs. join s ''/'' \<noteq> join slugPath ''/''"
  shows "prevNextIn cats allSlugs slugPath = \<lparr>prev_topic = None, next_topic = None\<rparr>"
proof -
  from assms have "findIndex (\<lambda>s. join s ''/'' = join slugPath ''/'') allSlugs = -1"
    unfolding findIndex_def by (intro findIndexFrom_none) simp
  then show ?thesis by (simp add: prevNextIn_def)
qed

lemma prevNextIn_found:
  assumes "i < length allSlugs" and "join (allSlugs ! i) ''/'' = join slugPath ''/''"
    and "\<forall>j<i. join (allSlugs ! j) ''/'' \<noteq> join slugPath ''/''"
  shows "prevNextIn cats allSlugs slugPath =
     \<lparr>prev_topic = (if 0 < i then getTopicInfo cats (Some (allSlugs ! (i - 1))) else None),
      next_topic = (if Suc i < length allSlugs then getTopicInfo cats (Some (allSlugs ! Suc i))
                    else None)\<rparr>"
proof -
  from assms have ix: "findIndex (\<lambda>s. join s ''/'' = join slugPath ''/'') allSlugs = int i"
    unfolding findIndex_def
    using findIndexFrom_first [of i allSlugs "\<lambda>s. join s ''/'' = join slugPath ''/''" 0] by simp
  have p: "nat (int i - 1) = i - 1" by simp
  have n: "nat (int i + 1) = Suc i" by simp
  have b: "int i < int (length allSlugs) - 1 \<longleftrightarrow> Suc i < length allSlugs" by auto
  have g: "getTopicInfo cats None = None" by (simp add: getTopicInfo_def)
  show ?thesis
    by (simp add: prevNextIn_def ix Let_def p n b g)
qed

lemma prevNext_links:
  assumes "getAllTopicSlugs cats = Some allSlugs"
  shows "\<exists>pn. getPrevNextTopics cats slugPath = Some pn
     \<and> ((\<forall>s\<in>set allSlugs. join s ''/'' \<noteq> join slugPath ''/'')
           \<longrightarrow> pn = \<lparr>prev_topic = None, next_topic = None\<rparr>)
     \<and> (\<forall>i<length allSlugs.
           join (allSlugs ! i) ''/'' = join slugPath ''/''
           \<and> (\<forall>j<i. join (allSlugs ! j) ''/'' \<noteq> join slugPath ''/'') \<longrightarrow>
             prev_topic pn = (if 0 < i then getTopicInfo cats (Some (allSlugs ! (i - 1))) else None)
           \<and> next_topic pn = (if Suc i < length allSlugs
                                then getTopicInfo cats (Some (allSlugs ! Suc i)) else None))
     \<and> (\<forall>s. getTopicInfo cats (Some s) =
           (case getTopicMetadata cats s of
              None \<Rightarrow> None
            | Some meta \<Rightarrow> Some \<lparr>info_title = title meta, info_href = ''/topics/'' @ join s ''/''\<rparr>))
     \<and> (allSlugs \<noteq> [] \<and> slugPath = hd allSlugs \<longrightarrow> prev_topic pn = None)
     \<and> (allSlugs \<noteq> [] \<and> slugPath = last allSlugs
          \<and> (\<forall>s\<in>set (butlast allSlugs). join s ''/'' \<noteq> join slugPath ''/'')
           \<longrightarrow> next_topic pn = None)"
proof -
  let ?pn = "prevNextIn cats allSlugs slugPath"
  from assms have 0: "getPrevNextTopics cats slugPath = Some ?pn"
    by (simp add: getPrevNextTopics_def)
  have 1: "(\<forall>s\<in>set allSlugs. join s ''/'' \<noteq> join slugPath ''/'')
           \<longrightarrow> ?pn = \<lparr>prev_topic = None, next_topic = None\<rparr>"
    by (simp add: prevNextIn_notfound)
  have 2: "\<forall>i<length allSlugs.
           join (allSlugs ! i) ''/'' = join slugPath ''/''
           \<and> (\<forall>j<i. join (allSlugs ! j) ''/'' \<noteq> join slugPath ''/'') \<longrightarrow>
             prev_topic ?pn = (if 0 < i then getTopicInfo cats (Some (allSlugs ! (i - 1))) else None)
           \<and> next_topic ?pn = (if Suc i < length allSlugs
                                then getTopicInfo cats (Some (allSlugs ! Suc i)) else None)"
    by (simp add: prevNextIn_found)
  have 3: "\<forall>s. getTopicInfo cats (Some s) =
           (case getTopicMetadata cats s of
              None \<Rightarrow> None
            | Some meta \<Rightarrow> Some \<lparr>info_title = title meta, info_href = ''/topics/'' @ join s ''/''\<rparr>)"
    by (simp add: getTopicInfo_def)
  have 4: "prev_topic ?pn = None" if "allSlugs \<noteq> []" "slugPath = hd allSlugs"
  proof -
    from that have "0 < length allSlugs" "join (allSlugs ! 0) ''/'' = join slugPath ''/''"
      by (simp_all add: hd_conv_nth)
    from prevNextIn_found [OF this, of cats] show ?thesis by simp
  qed
  have 5: "next_topic ?pn = None"
    if "allSlugs \<noteq> []" "slugPath = last allSlugs"
      "\<forall>s\<in>set (butlast allSlugs). join s ''/'' \<noteq> join slugPath ''/''"
  proof -
    let ?i = "length allSlugs - 1"
    from that(1) have i: "?i < length allSlugs" by simp
    from that(1,2) have e: "join (allSlugs ! ?i) ''/'' = join slugPath ''/''"
      by (simp add: last_conv_nth)
    have "join (allSlugs ! j) ''/'' \<noteq> join slugPath ''/''" if "j < ?i" for j
    proof -
      from that have "butlast allSlugs ! j \<in> set (butlast allSlugs)" by simp
      moreover from that have "butlast allSlugs ! j = allSlugs ! j" by (simp add: nth_butlast)
      ultimately show ?thesis using \<open>\<forall>s\<in>set (butlast allSlugs). join s ''/'' \<noteq> join slugPath ''/''\<close>
        by auto
    qed
    then have "\<forall>j<?i. join (allSlugs ! j) ''/'' \<noteq> join slugPath ''/''" by blast
    from prevNextIn_found [OF i e this, of cats] that(1) show ?thesis by simp
  qed
  from 0 1 2 3 4 5 show ?thesis by blast
qed

text \<open>
  C8 (as amended). When the parent graph is acyclic, \<open>getAllTopicSlugs\<close> and
  \<open>getPrevNextTopics\<close> return. The current index is the first position whose path, joined by \<open>/\<close>, equals the joined
  slug path. When there is none, both links are null. Otherwise the previous link is the
  topic info of the element before, when the index is positive, and null when it is 0;
  the next link is the topic info of the element after, when there is one, and null
  when there is none. The topic info of a path is its title and \<open>/topics/\<close> followed by
  the joined path when \<open>getTopicMetadata\<close> resolves the path, and null when it does
  not. For the first path of the list the previous link is null; for the last path the
  next link is null provided no earlier path has the same joined string.
\<close>

theorem getPrevNextTopics_links:
  assumes "acyclic (parentRel cats)"
  shows "\<exists>allSlugs. getAllTopicSlugs cats = Some allSlugs \<and> length allSlugs = length cats \<and>
     (\<exists>pn. getPrevNextTopics cats slugPath = Some pn
     \<and> ((\<forall>s\<in>set allSlugs. join s ''/'' \<noteq> join slugPath ''/'')
           \<longrightarrow> pn = \<lparr>prev_topic = None, next_topic = None\<rparr>)
     \<and> (\<forall>i<length allSlugs.
           join (allSlugs ! i) ''/'' = join slugPath ''/''
           \<and> (\<forall>j<i. join (allSlugs ! j) ''/'' \<noteq> join slugPath ''/'') \<longrightarrow>
             prev_topic pn = (if 0 < i then getTopicInfo cats (Some (allSlugs ! (i - 1))) else None)
           \<and> next_topic pn = (if Suc i < length allSlugs
                                then getTopicInfo cats (Some (allSlugs ! Suc i)) else None))
     \<and> (\<forall>s. getTopicInfo cats (Some s) =
           (case getTopicMetadata cats s of
              None \<Rightarrow> None
            | Some meta \<Rightarrow> Some \<lparr>info_title = title meta, info_href = ''/topics/'' @ join s ''/''\<rparr>))
     \<and> (allSlugs \<noteq> [] \<and> slugPath = hd allSlugs \<longrightarrow> prev_topic pn = None)
     \<and> (allSlugs \<noteq> [] \<and> slugPath = last allSlugs
          \<and> (\<forall>s\<in>set (butlast allSlugs). join s ''/'' \<noteq> join slugPath ''/'')
           \<longrightarrow> next_topic pn = None))"
proof -
  have "\<exists>segs. walkSlugs (categoryMap cats) (Some d) [] = Some segs" if "d \<in> set cats" for d
    using walk_acyclic [OF assms that] by (metis append_Nil2)
  from slugPaths_total [of cats "categoryMap cats", OF this] obtain allSlugs where
    a: "getAllTopicSlugs cats = Some allSlugs" "length allSlugs = length cats"
    by (auto simp: getAllTopicSlugs_def)
  from prevNext_links [OF a(1), of slugPath] a show ?thesis by blast
qed

lemma abc_parentRel: "parentRel [catA, catB, catB2] = {}"
  by (auto simp: parentRel_def parentOf_def catA_def catB_def catB2_def)

lemma abc_acyclic: "acyclic (parentRel [catA, catB, catB2])"
  by (simp add: abc_parentRel acyclic_def)

lemma abc_slugs:
  "getAllTopicSlugs [catA, catB, catB2] = Some [[''alpha''], [''beta''], [''gamma'']]"
  by (simp add: getAllTopicSlugs_def walkSlugs_Some walkSlugs_None parentOf_def
      catA_def catB_def catB2_def)

lemma abc_meta:
  "getTopicMetadata [catA, catB, catB2] [''alpha''] = Some catA"
  "getTopicMetadata [catA, catB, catB2] [''gamma''] = Some catB2"
  by (simp_all add: getTopicMetadata_def findTopicBySlugPath_def childrenOf_filter categoryMap_def
      catA_def catB_def catB2_def)

lemma abc_titles: "title catA = ''Alpha''" "title catB2 = ''Gamma''"
  by (simp_all add: catA_def catB2_def)

theorem getPrevNextTopics_links_witness:
  "acyclic (parentRel [catA, catB, catB2])
   \<and> getAllTopicSlugs [catA, catB, catB2] = Some [[''alpha''], [''beta''], [''gamma'']]
   \<and> getPrevNextTopics [catA, catB, catB2] [''beta''] =
       Some \<lparr>prev_topic = Some \<lparr>info_title = ''Alpha'', info_href = ''/topics/alpha''\<rparr>,
             next_topic = Some \<lparr>info_title = ''Gamma'', info_href = ''/topics/gamma''\<rparr>\<rparr>
   \<and> getPrevNextTopics [catA, catB, catB2] [''delta''] =
       Some \<lparr>prev_topic = None, next_topic = None\<rparr>"
proof -
  let ?cats = "[catA, catB, catB2]"
  from getPrevNextTopics_links [OF abc_acyclic, of "[''beta'']"] obtain allSlugs pn where
    a: "getAllTopicSlugs ?cats = Some allSlugs"
    and pn: "getPrevNextTopics ?cats [''beta''] = Some pn"
    and at: "\<forall>i<length allSlugs.
           join (allSlugs ! i) ''/'' = join [''beta''] ''/''
           \<and> (\<forall>j<i. join (allSlugs ! j) ''/'' \<noteq> join [''beta''] ''/'') \<longrightarrow>
             prev_topic pn = (if 0 < i then getTopicInfo ?cats (Some (allSlugs ! (i - 1))) else None)
           \<and> next_topic pn = (if Suc i < length allSlugs
                                then getTopicInfo ?cats (Some (allSlugs ! Suc i)) else None)"
    by blast
  from a abc_slugs have all: "allSlugs = [[''alpha''], [''beta''], [''gamma'']]" by simp
  have "\<forall>j<Suc 0. join (allSlugs ! j) ''/'' \<noteq> join [''beta''] ''/''"
    by (simp add: all)
  with at [rule_format, of "Suc 0"]
  have "prev_topic pn = getTopicInfo ?cats (Some [''alpha''])"
    "next_topic pn = getTopicInfo ?cats (Some [''gamma''])"
    by (simp_all add: all)
  then have "prev_topic pn = Some \<lparr>info_title = ''Alpha'', info_href = ''/topics/alpha''\<rparr>"
    "next_topic pn = Some \<lparr>info_title = ''Gamma'', info_href = ''/topics/gamma''\<rparr>"
    by (simp_all add: getTopicInfo_def abc_meta abc_titles)
  then have "pn = \<lparr>prev_topic = Some \<lparr>info_title = ''Alpha'', info_href = ''/topics/alpha''\<rparr>,
             next_topic = Some \<lparr>info_title = ''Gamma'', info_href = ''/topics/gamma''\<rparr>\<rparr>"
    by (cases pn) simp
  with pn have 1: "getPrevNextTopics ?cats [''beta''] =
       Some \<lparr>prev_topic = Some \<lparr>info_title = ''Alpha'', info_href = ''/topics/alpha''\<rparr>,
             next_topic = Some \<lparr>info_title = ''Gamma'', info_href = ''/topics/gamma''\<rparr>\<rparr>"
    by simp
  from getPrevNextTopics_links [OF abc_acyclic, of "[''delta'']"] obtain allSlugs' pn' where
    a': "getAllTopicSlugs ?cats = Some allSlugs'"
    and pn': "getPrevNextTopics ?cats [''delta''] = Some pn'"
    and nf: "(\<forall>s\<in>set allSlugs'. join s ''/'' \<noteq> join [''delta''] ''/'')
           \<longrightarrow> pn' = \<lparr>prev_topic = None, next_topic = None\<rparr>"
    by blast
  from a' abc_slugs have "allSlugs' = [[''alpha''], [''beta''], [''gamma'']]" by simp
  with nf have "pn' = \<lparr>prev_topic = None, next_topic = None\<rparr>" by simp
  with pn' have 2: "getPrevNextTopics ?cats [''delta''] = Some \<lparr>prev_topic = None, next_topic = None\<rparr>"
    by simp
  from abc_acyclic abc_slugs 1 2 show ?thesis by blast
qed

text \<open>
  The claim as stated makes the previous link the element before whenever the index is
  positive. Below, the first category has a dangling parent: its path \<open>lost\<close> is an
  element of \<open>getAllTopicSlugs\<close>, but no root has that slug, so \<open>getTopicMetadata\<close>
  does not resolve it, and the previous link of the second path is null at index 1.
\<close>

theorem getPrevNextTopics_counterexample:
  "getAllTopicSlugs [orphanTopic, rootFoundations] = Some [[''lost''], [''foundations'']]
   \<and> findIndex (\<lambda>s. join s ''/'' = join [''foundations''] ''/'') [[''lost''], [''foundations'']] = 1
   \<and> getPrevNextTopics [orphanTopic, rootFoundations] [''foundations'']
       = Some \<lparr>prev_topic = None, next_topic = None\<rparr>"
proof -
  have 1: "getAllTopicSlugs [orphanTopic, rootFoundations] = Some [[''lost''], [''foundations'']]"
    by (simp add: getAllTopicSlugs_def walkSlugs_Some walkSlugs_None parentOf_def categoryMap_def
        orphanTopic_def rootFoundations_def)
  have 2: "findIndex (\<lambda>s. join s ''/'' = join [''foundations''] ''/'') [[''lost''], [''foundations'']] = 1"
    by (simp add: findIndex_def)
  have 3: "getTopicMetadata [orphanTopic, rootFoundations] [''lost''] = None"
    by (simp add: getTopicMetadata_def findTopicBySlugPath_def childrenOf_filter
        orphanTopic_def rootFoundations_def)
  have 4: "getPrevNextTopics [orphanTopic, rootFoundations] [''foundations'']
       = Some \<lparr>prev_topic = None, next_topic = None\<rparr>"
    by (simp add: getPrevNextTopics_def 1 prevNextIn_def findIndex_def getTopicInfo_def 3)
  from 1 2 4 show ?thesis by blast
qed

section \<open>Heading ids\<close>













section \<open>The heading scan\<close>















section \<open>Markdown links\<close>










section \<open>The items of the table of contents\<close>







end
